theory Spec2Isabelle
  imports Main "HOL-Library.Sublist"
begin

section \<open>Exceptions\<close>

text \<open>
  The scraper distinguishes two kinds of Python exceptions: those derived from
  \<open>Exception\<close>, which every \<open>except Exception\<close> clause of the module catches, and
  \<open>KeyboardInterrupt\<close>, which derives from \<open>BaseException\<close> only and is caught in one
  place, the \<open>except KeyboardInterrupt\<close> clause of \<open>main\<close>.  The string is the class name.
\<close>

datatype exn = Exception string | KeyboardInterrupt

section \<open>Python strings\<close>

text \<open>
  Text is modelled as ASCII: a \<^typ>\<open>char\<close> stands for the code point of the same
  number, and the character classes below are Python's classes on the code points
  below 128.  Code points from 128 on belong to none of the classes and are left alone
  by \<open>lower\<close>.
\<close>

definition code :: "char \<Rightarrow> nat" where
  "code c = of_char c"

text \<open>\<open>str.isspace\<close> on one character, which is also what \<open>str.strip()\<close> removes.\<close>

definition is_space :: "char \<Rightarrow> bool" where
  "is_space c = ((9 \<le> code c \<and> code c \<le> 13) \<or> (28 \<le> code c \<and> code c \<le> 32))"

definition is_digit :: "char \<Rightarrow> bool" where
  "is_digit c = (48 \<le> code c \<and> code c \<le> 57)"

definition is_upper :: "char \<Rightarrow> bool" where
  "is_upper c = (65 \<le> code c \<and> code c \<le> 90)"

definition is_lower :: "char \<Rightarrow> bool" where
  "is_lower c = (97 \<le> code c \<and> code c \<le> 122)"

definition lower_char :: "char \<Rightarrow> char" where
  "lower_char c = (if is_upper c then char_of (code c + 32) else c)"

text \<open>\<open>s.lower()\<close>\<close>

definition lower :: "string \<Rightarrow> string" where
  "lower s = map lower_char s"

text \<open>\<open>s.strip()\<close> and \<open>s.strip(chars)\<close>\<close>

definition strip_where :: "(char \<Rightarrow> bool) \<Rightarrow> string \<Rightarrow> string" where
  "strip_where p s = rev (dropWhile p (rev (dropWhile p s)))"

definition strip :: "string \<Rightarrow> string" where
  "strip s = strip_where is_space s"

definition strip_chars :: "string \<Rightarrow> string \<Rightarrow> string" where
  "strip_chars chars s = strip_where (\<lambda>c. c \<in> set chars) s"

text \<open>\<open>s.isdigit()\<close>: at least one character, and digits only.\<close>

definition isdigit :: "string \<Rightarrow> bool" where
  "isdigit s = (s \<noteq> [] \<and> list_all is_digit s)"

text \<open>\<open>s.startswith(p)\<close>\<close>

definition startswith :: "string \<Rightarrow> string \<Rightarrow> bool" where
  "startswith s p = (take (length p) s = p)"

text \<open>
  \<open>s.split(sep)\<close> for a separator that is not empty (Python raises \<open>ValueError\<close> on the
  empty one; the module splits on \<open>"by "\<close> and \<open>" "\<close> only): the pieces between the
  occurrences of \<open>sep\<close>, found from the left without overlap.  \<open>acc\<close> is the piece
  being read.
\<close>

function split_from :: "string \<Rightarrow> string \<Rightarrow> string \<Rightarrow> string list" where
  "split_from sep acc s =
     (if s = [] then [acc]
      else if sep \<noteq> [] \<and> startswith s sep then acc # split_from sep [] (drop (length sep) s)
      else split_from sep (acc @ [hd s]) (tl s))"
  by pat_completeness auto
termination
  by (relation "measure (\<lambda>(sep, acc, s). length s)") auto

declare split_from.simps [simp del]

definition split :: "string \<Rightarrow> string \<Rightarrow> string list" where
  "split s sep = split_from sep [] s"

text \<open>\<open>sep.join(parts)\<close>\<close>

fun join :: "string \<Rightarrow> string list \<Rightarrow> string" where
  "join sep [] = []"
| "join sep [p] = p"
| "join sep (p # q # ps) = p @ sep @ join sep (q # ps)"

text \<open>
  \<open>s.replace(old, "")\<close>: every occurrence of \<open>old\<close>, found from the left without
  overlap, is removed.  With an empty \<open>old\<close> Python inserts the (here empty) new text
  between the characters, which leaves \<open>s\<close> as it is.
\<close>

function remove_all :: "string \<Rightarrow> string \<Rightarrow> string" where
  "remove_all old s =
     (if s = [] then []
      else if old \<noteq> [] \<and> startswith s old then remove_all old (drop (length old) s)
      else hd s # remove_all old (tl s))"
  by pat_completeness auto
termination
  by (relation "measure (\<lambda>(old, s). length s)") auto

declare remove_all.simps [simp del]

text \<open>
  \<open>int(s)\<close> on a string: white space around the number is dropped (here the six
  characters of C's \<open>isspace\<close>), one sign may lead, and the digits may be grouped by
  single underscores.  \<open>None\<close> stands for the \<open>ValueError\<close>.
\<close>

definition is_c_space :: "char \<Rightarrow> bool" where
  "is_c_space c = ((9 \<le> code c \<and> code c \<le> 13) \<or> code c = 32)"

definition digit_value :: "char \<Rightarrow> nat" where
  "digit_value c = code c - 48"

definition digits_value :: "string \<Rightarrow> nat" where
  "digits_value ds = foldl (\<lambda>n c. 10 * n + digit_value c) 0 ds"

fun digit_groups :: "string \<Rightarrow> bool" where
  "digit_groups [] = False"
| "digit_groups [c] = is_digit c"
| "digit_groups (c # d # r) =
     (is_digit c \<and> (if d = CHR ''_'' then digit_groups r else digit_groups (d # r)))"

definition py_int :: "string \<Rightarrow> int option" where
  "py_int s =
     (let t = strip_where is_c_space s;
          neg = (t \<noteq> [] \<and> hd t = CHR ''-'');
          body = (if t \<noteq> [] \<and> (hd t = CHR ''-'' \<or> hd t = CHR ''+'') then tl t else t)
      in if digit_groups body
         then Some ((if neg then - 1 else 1) * int (digits_value (filter is_digit body)))
         else None)"

text \<open>\<open>str(n)\<close> for an integer that is not negative: its decimal digits.\<close>

function str_nat :: "nat \<Rightarrow> string" where
  "str_nat n = (if n < 10 then [char_of (48 + n)] else str_nat (n div 10) @ [char_of (48 + n mod 10)])"
  by pat_completeness auto
termination
  by (relation "measure id") auto

declare str_nat.simps [simp del]

text \<open>
  \<open>os.path.splitext(p)[0]\<close> on a POSIX path: the path without the extension of its last
  component, where the leading dots of that component do not start an extension.
\<close>

definition rfind :: "char \<Rightarrow> string \<Rightarrow> nat option" where
  "rfind c s = (case filter (\<lambda>i. s ! i = c) (rev [0..<length s]) of [] \<Rightarrow> None | i # _ \<Rightarrow> Some i)"

definition splitext_root :: "string \<Rightarrow> string" where
  "splitext_root p =
     (let filename_index = (case rfind CHR ''/'' p of None \<Rightarrow> 0 | Some i \<Rightarrow> i + 1)
      in case rfind CHR ''.'' p of
           None \<Rightarrow> p
         | Some dot_index \<Rightarrow>
             if filename_index \<le> dot_index
                \<and> (\<exists>i \<in> set [filename_index..<dot_index]. p ! i \<noteq> CHR ''.'')
             then take dot_index p else p)"

section \<open>The regular expressions of \<open>extract_date\<close>\<close>

text \<open>
  The three date patterns are sequences of literal characters, of character classes
  under a greedy quantifier (\<open>+\<close>, \<open>{1,2}\<close>, \<open>{4}\<close>) and of the two ends of the one
  capturing group; the non-capturing group \<open>(?:...)\<close> only brackets its items.
  \<open>re.search\<close> is modelled for this fragment, with the backtracking order of
  Python's engine: a quantifier takes as many characters as it can and gives them
  back one at a time, and the start positions are tried from the left.
\<close>

datatype cls = Space | Word | Digit | WordOrSpace

definition is_word :: "char \<Rightarrow> bool" where
  "is_word c = (is_digit c \<or> is_upper c \<or> is_lower c \<or> c = CHR ''_'')"

fun in_cls :: "cls \<Rightarrow> char \<Rightarrow> bool" where
  "in_cls Space c = is_space c"
| "in_cls Word c = is_word c"
| "in_cls Digit c = is_digit c"
| "in_cls WordOrSpace c = (is_word c \<or> is_space c)"

datatype item =
    Lit char
  | Rep cls nat "nat option"
  | GroupOpen
  | GroupClose

text \<open>The first success of a list of alternatives, in their order.\<close>

fun first_some :: "'a option list \<Rightarrow> 'a option" where
  "first_some [] = None"
| "first_some (None # r) = first_some r"
| "first_some (Some x # r) = Some x"

text \<open>
  \<open>match_here items s opened closed\<close> matches the items at the start of \<open>s\<close>;
  \<open>opened\<close> and \<open>closed\<close> are the rests of the text at the two ends of the group, so
  that the group holds what lies between them.  The result is \<open>match.group(1)\<close>.
\<close>

fun match_here :: "item list \<Rightarrow> string \<Rightarrow> string \<Rightarrow> string \<Rightarrow> string option" where
  "match_here [] s opened closed = Some (take (length opened - length closed) opened)"
| "match_here (Lit c # r) s opened closed =
     (case s of [] \<Rightarrow> None
      | x # xs \<Rightarrow> if x = c then match_here r xs opened closed else None)"
| "match_here (GroupOpen # r) s opened closed = match_here r s s closed"
| "match_here (GroupClose # r) s opened closed = match_here r s opened s"
| "match_here (Rep k lo hi # r) s opened closed =
     (let run = length (takeWhile (in_cls k) s);
          most = (case hi of None \<Rightarrow> run | Some h \<Rightarrow> min h run)
      in first_some (map (\<lambda>n. match_here r (drop n s) opened closed) (rev [lo..<Suc most])))"

text \<open>\<open>re.search(pattern, text)\<close>, giving \<open>group(1)\<close> of the match it finds.\<close>

fun search :: "item list \<Rightarrow> string \<Rightarrow> string option" where
  "search items [] = match_here items [] [] []"
| "search items (c # cs) =
     (case match_here items (c # cs) [] [] of
        Some g \<Rightarrow> Some g
      | None \<Rightarrow> search items cs)"

text \<open>The common head \<open>(?:by\s+[\w\s]+\s+)\<close> of the patterns.\<close>

definition by_prefix :: "item list" where
  "by_prefix = [Lit CHR ''b'', Lit CHR ''y'', Rep Space 1 None, Rep WordOrSpace 1 None,
                Rep Space 1 None]"

text \<open>
  \<open>date_patterns\<close>, in the order of the source: \<open>Month DD, YYYY\<close>, then
  \<open>DD Month YYYY\<close>, then \<open>Month YYYY\<close>.
\<close>

definition date_patterns :: "item list list" where
  "date_patterns =
     [by_prefix @ [GroupOpen, Rep Word 1 None, Rep Space 1 None, Rep Digit 1 (Some 2),
                   Lit CHR '','', Rep Space 1 None, Rep Digit 4 (Some 4), GroupClose],
      by_prefix @ [GroupOpen, Rep Digit 1 (Some 2), Rep Space 1 None, Rep Word 1 None,
                   Rep Space 1 None, Rep Digit 4 (Some 4), GroupClose],
      by_prefix @ [GroupOpen, Rep Word 1 None, Rep Space 1 None, Rep Digit 4 (Some 4),
                   GroupClose]]"

section \<open>\<open>extract_date\<close>\<close>

text \<open>
  The loop over the patterns returns at the first one that matches.
\<close>

fun first_match :: "item list list \<Rightarrow> string \<Rightarrow> string option" where
  "first_match [] text = None"
| "first_match (pattern # patterns) text =
     (case search pattern text of
        Some g \<Rightarrow> Some g
      | None \<Rightarrow> first_match patterns text)"

text \<open>
  The fallback: \<open>text.split("by ")[1].split(" ")[2:]\<close>, joined by spaces; the
  \<open>IndexError\<close> of a text without \<open>"by "\<close> is caught and gives the empty string.
\<close>

definition old_method :: "string \<Rightarrow> string" where
  "old_method text =
     (case split text ''by '' of
        _ # after # _ \<Rightarrow> join '' '' (drop 2 (split after '' ''))
      | _ \<Rightarrow> [])"

definition extract_date :: "string \<Rightarrow> string" where
  "extract_date text =
     (if text = [] then []
      else case first_match date_patterns text of
             Some g \<Rightarrow> g
           | None \<Rightarrow> old_method text)"

section \<open>Page elements\<close>

text \<open>
  A Selenium element is what \<open>find_element\<close> answers on it: for a locator strategy and a
  selector, either the text of the element found, or one of the two lookup exceptions
  the module catches by name, or any other \<open>WebDriverException\<close>.
\<close>

datatype By = CSS_SELECTOR | XPATH

datatype found =
    Found string
  | NoSuchElementException
  | StaleElementReferenceException
  | WebDriverException

type_synonym element = "By \<Rightarrow> string \<Rightarrow> found"

text \<open>
  \<open>extract_text_safely(element, selector, default)\<close>: the CSS selector first, then the
  XPath \<open>.//*[contains(@class, '<selector without its dots>')]\<close>.
\<close>

definition xpath_selector :: "string \<Rightarrow> string" where
  "xpath_selector selector =
     ''.//*[contains(@class, '' @ [CHR 0x27] @ strip_chars ''.'' selector @ [CHR 0x27] @ '')]''"

definition extract_text_safely :: "element \<Rightarrow> string \<Rightarrow> string \<Rightarrow> exn + string" where
  "extract_text_safely element selector default_text =
     (case element CSS_SELECTOR selector of
        Found t \<Rightarrow> Inr (strip t)
      | WebDriverException \<Rightarrow> Inl (Exception ''WebDriverException'')
      | _ \<Rightarrow>
          (case element XPATH (xpath_selector selector) of
             Found t \<Rightarrow> Inr (strip t)
           | WebDriverException \<Rightarrow> Inl (Exception ''WebDriverException'')
           | _ \<Rightarrow> Inr default_text))"

section \<open>\<open>extract_votes\<close>\<close>

definition vote_selectors :: "bool \<Rightarrow> string list" where
  "vote_selectors is_upvote =
     [''button[data-x-bind='' @ [CHR 0x27] @ ''thumb'' @ (if is_upvote then ''Up'' else ''Down'')
        @ [CHR 0x27] @ ''] span'',
      ''.flex.items-center button:nth-'' @ (if is_upvote then ''child(1)'' else ''child(2)'')
        @ '' span'',
      ''//button[contains(@class, '' @ [CHR 0x27] @ ''rounded-''
        @ (if is_upvote then ''tl'' else ''tr'') @ ''-3xl'' @ [CHR 0x27] @ '')]//span'']"

text \<open>
  The loop over the selectors: \<open>vote_text\<close> is overwritten by every text found, and the
  loop is left at the first text that is a digit string.
\<close>

fun votes_loop :: "element \<Rightarrow> string list \<Rightarrow> string \<Rightarrow> exn + string" where
  "votes_loop element [] vote_text = Inr vote_text"
| "votes_loop element (selector # selectors) vote_text =
     (case element (if startswith selector ''//'' then XPATH else CSS_SELECTOR) selector of
        Found t \<Rightarrow>
          (if strip t \<noteq> [] \<and> isdigit (strip t) then Inr (strip t)
           else votes_loop element selectors (strip t))
      | WebDriverException \<Rightarrow> Inl (Exception ''WebDriverException'')
      | _ \<Rightarrow> votes_loop element selectors vote_text)"

definition extract_votes :: "element \<Rightarrow> bool \<Rightarrow> exn + int" where
  "extract_votes element is_upvote =
     (case votes_loop element (vote_selectors is_upvote) [] of
        Inl e \<Rightarrow> Inl e
      | Inr vote_text \<Rightarrow>
          (case py_int vote_text of
             Some n \<Rightarrow> Inr n
           | None \<Rightarrow> Inr 0))"

section \<open>\<open>scrape_page\<close>\<close>

text \<open>
  The contributor of an entry: the attribution text without the date (when one was
  found) and without \<open>"by"\<close>, stripped.
\<close>

definition contributor_of :: "string \<Rightarrow> string \<Rightarrow> string" where
  "contributor_of contributor_text date_found =
     strip (remove_all ''by''
       (if date_found \<noteq> [] then remove_all date_found contributor_text else contributor_text))"

record entry =
  word :: string
  definition_text :: string
  example :: string
  contributor :: string
  date :: string
  upvotes :: int
  downvotes :: int
  page :: int
  scraped_date :: string

text \<open>
  The part of the loop body after the duplicate check: the remaining fields are read
  and the entry is built.  \<open>today\<close> is \<open>datetime.now().strftime('%Y-%m-%d')\<close>.
\<close>

definition read_entry :: "element \<Rightarrow> string \<Rightarrow> int \<Rightarrow> string \<Rightarrow> exn + entry" where
  "read_entry element w page_num today =
     (case extract_text_safely element ''.meaning'' [] of Inl e \<Rightarrow> Inl e | Inr d \<Rightarrow>
      case extract_text_safely element ''.example'' [] of Inl e \<Rightarrow> Inl e | Inr x \<Rightarrow>
      case extract_text_safely element ''.contributor'' [] of Inl e \<Rightarrow> Inl e | Inr contributor_text \<Rightarrow>
      case extract_votes element True of Inl e \<Rightarrow> Inl e | Inr up \<Rightarrow>
      case extract_votes element False of Inl e \<Rightarrow> Inl e | Inr down \<Rightarrow>
        Inr \<lparr>word = w, definition_text = d, example = x,
             contributor = contributor_of contributor_text (extract_date contributor_text),
             date = extract_date contributor_text,
             upvotes = up, downvotes = down, page = page_num, scraped_date = today\<rparr>)"

text \<open>The key under which duplicates are found: \<open>word.lower().strip()\<close>.\<close>

definition word_key :: "string \<Rightarrow> string" where
  "word_key w = strip (lower w)"

text \<open>
  The loop over the definition containers, with its \<open>seen_words\<close> and \<open>entries\<close>.  An
  exception inside the body is caught and the loop goes on with the next element; the
  key of the element has been added to \<open>seen_words\<close> by then if the failure came after
  the duplicate check.
\<close>

fun scrape_elements ::
  "int \<Rightarrow> string \<Rightarrow> element list \<Rightarrow> string set \<Rightarrow> entry list \<Rightarrow> entry list" where
  "scrape_elements page_num today [] seen_words entries = entries"
| "scrape_elements page_num today (element # elements) seen_words entries =
     (case extract_text_safely element ''.word'' [] of
        Inl e \<Rightarrow> scrape_elements page_num today elements seen_words entries
      | Inr w \<Rightarrow>
          if w = [] then scrape_elements page_num today elements seen_words entries
          else if word_key w \<in> seen_words
          then scrape_elements page_num today elements seen_words entries
          else (case read_entry element w page_num today of
                  Inl e \<Rightarrow>
                    scrape_elements page_num today elements (insert (word_key w) seen_words)
                      entries
                | Inr new_entry \<Rightarrow>
                    scrape_elements page_num today elements (insert (word_key w) seen_words)
                      (entries @ [new_entry])))"

text \<open>
  One browser session: whether \<open>setup_driver\<close> raises, whether loading the page and
  waiting for its definitions raises, the definition containers found, and whether
  \<open>driver.quit()\<close> raises.
\<close>

record browser =
  setup_driver :: "exn option"
  load_page :: "exn option"
  definition_elements :: "element list"
  quit_driver :: "exn option"

text \<open>
  \<open>scrape_page\<close>: an \<open>Exception\<close> in the body gives the empty list, and the
  \<open>finally\<close> clause quits the driver when there is one.
\<close>

definition scrape_page :: "browser \<Rightarrow> int \<Rightarrow> string \<Rightarrow> exn + entry list" where
  "scrape_page b page_num today =
     (case setup_driver b of
        Some (Exception m) \<Rightarrow> Inr []
      | Some KeyboardInterrupt \<Rightarrow> Inl KeyboardInterrupt
      | None \<Rightarrow>
          (let body =
                 (case load_page b of
                    Some (Exception m) \<Rightarrow> Inr []
                  | Some KeyboardInterrupt \<Rightarrow> Inl KeyboardInterrupt
                  | None \<Rightarrow> Inr (scrape_elements page_num today (definition_elements b) {} []))
           in case quit_driver b of
                Some e \<Rightarrow> Inl e
              | None \<Rightarrow> body))"

section \<open>\<open>scrape_page_with_retry\<close>\<close>

text \<open>
  The page extraction is a parameter: \<open>scrape p k\<close> is what call number \<open>k\<close> (from 0)
  of \<open>scrape_page(p)\<close> does, a list of entries or an exception.  The result has the value
  returned, where \<open>None\<close> is Python's \<open>None\<close> of a function that ends without
  \<open>return\<close>, and the number of calls of \<open>scrape_page\<close> made.
\<close>

function retry_loop ::
  "(int \<Rightarrow> nat \<Rightarrow> exn + entry list) \<Rightarrow> int \<Rightarrow> int \<Rightarrow> nat
     \<Rightarrow> (exn + entry list option) \<times> nat" where
  "retry_loop scrape page_num max_retries attempt =
     (if int attempt < max_retries then
        (case scrape page_num attempt of
           Inr entries \<Rightarrow> (Inr (Some entries), attempt + 1)
         | Inl (Exception m) \<Rightarrow>
             if int attempt < max_retries - 1
             then retry_loop scrape page_num max_retries (attempt + 1)
             else (Inr (Some []), attempt + 1)
         | Inl KeyboardInterrupt \<Rightarrow> (Inl KeyboardInterrupt, attempt + 1))
      else (Inr None, attempt))"
  by pat_completeness auto
termination
  by (relation "measure (\<lambda>(scrape, page_num, max_retries, attempt). nat (max_retries - int attempt))")
     auto

declare retry_loop.simps [simp del]

definition scrape_page_with_retry ::
  "(int \<Rightarrow> nat \<Rightarrow> exn + entry list) \<Rightarrow> int \<Rightarrow> int \<Rightarrow> (exn + entry list option) \<times> nat" where
  "scrape_page_with_retry scrape page_num max_retries = retry_loop scrape page_num max_retries 0"

section \<open>The chunking loop of \<open>main\<close>\<close>

text \<open>
  \<open>page_numbers = list(range(args.start, args.end + 1))\<close>: the page identifiers are
  Python integers.
\<close>

definition page_numbers :: "int \<Rightarrow> int \<Rightarrow> int list" where
  "page_numbers start end = [start..end]"

text \<open>
  \<open>range(i, n, step)\<close> for a positive step, read from position \<open>i\<close>.
\<close>

function range_from :: "nat \<Rightarrow> nat \<Rightarrow> nat \<Rightarrow> nat list" where
  "range_from i n step = (if 0 < step \<and> i < n then i # range_from (i + step) n step else [])"
  by pat_completeness auto
termination
  by (relation "measure (\<lambda>(i, n, step). n - i)") auto

declare range_from.simps [simp del]

text \<open>
  \<open>range(0, len(page_numbers), args.chunk_size)\<close>: a zero step raises \<open>ValueError\<close>, a
  negative step gives the empty range (the start 0 is never above the stop).
\<close>

definition chunk_starts :: "nat \<Rightarrow> int \<Rightarrow> exn + nat list" where
  "chunk_starts n chunk_size =
     (if chunk_size = 0 then Inl (Exception ''ValueError'')
      else if chunk_size < 0 then Inr []
      else Inr (range_from 0 n (nat chunk_size)))"

text \<open>
  One iteration's bounds: \<open>chunk_end = min(chunk_start + args.chunk_size, len(page_numbers))\<close>.
\<close>

definition chunk_end_of :: "nat \<Rightarrow> int \<Rightarrow> nat \<Rightarrow> nat" where
  "chunk_end_of n chunk_size chunk_start = nat (min (int chunk_start + chunk_size) (int n))"

text \<open>
  The slice \<open>page_numbers[chunk_start:chunk_end]\<close> for indices that are not negative.
\<close>

definition slice :: "'a list \<Rightarrow> nat \<Rightarrow> nat \<Rightarrow> 'a list" where
  "slice xs i j = take (j - i) (drop i xs)"

text \<open>
  A chunk as the loop body sees it: the two indices and the pages between them.
\<close>

record chunk =
  chunk_start :: nat
  chunk_end :: nat
  chunk_pages :: "int list"

definition mk_chunk :: "int list \<Rightarrow> int \<Rightarrow> nat \<Rightarrow> chunk" where
  "mk_chunk pns chunk_size cs =
     (let ce = chunk_end_of (length pns) chunk_size cs
      in \<lparr>chunk_start = cs, chunk_end = ce, chunk_pages = slice pns cs ce\<rparr>)"

definition chunks_of :: "int \<Rightarrow> int \<Rightarrow> int \<Rightarrow> exn + chunk list" where
  "chunks_of start end chunk_size =
     (let pns = page_numbers start end
      in case chunk_starts (length pns) chunk_size of
           Inl e \<Rightarrow> Inl e
         | Inr css \<Rightarrow> Inr (map (mk_chunk pns chunk_size) css))"

section \<open>\<open>save_to_csv\<close>\<close>

text \<open>
  A cell of the table is a string or an integer; a file is its header line and its
  rows.
\<close>

datatype cell = Str string | Num int

record csv_file =
  header :: "string list"
  rows :: "cell list list"

definition fieldnames :: "string list" where
  "fieldnames = [''word'', ''definition'', ''example'', ''contributor'', ''date'',
                 ''upvotes'', ''downvotes'', ''page'', ''scraped_date'']"

text \<open>The dictionary that \<open>scrape_page\<close> builds for an entry, in the order of its keys.\<close>

definition entry_dict :: "entry \<Rightarrow> (string \<times> cell) list" where
  "entry_dict e =
     [(''word'', Str (word e)),
      (''definition'', Str (definition_text e)),
      (''example'', Str (example e)),
      (''contributor'', Str (contributor e)),
      (''date'', Str (date e)),
      (''upvotes'', Num (upvotes e)),
      (''downvotes'', Num (downvotes e)),
      (''page'', Num (page e)),
      (''scraped_date'', Str (scraped_date e))]"

text \<open>
  \<open>csv.DictWriter.writerow\<close>: a key outside \<open>fieldnames\<close> raises \<open>ValueError\<close>; the row
  has the value of every field name in the order of \<open>fieldnames\<close>, the empty string for
  a key that is missing.
\<close>

definition dict_to_list :: "string list \<Rightarrow> (string \<times> cell) list \<Rightarrow> exn + cell list" where
  "dict_to_list names rowdict =
     (if \<exists>k \<in> set (map fst rowdict). k \<notin> set names then Inl (Exception ''ValueError'')
      else Inr (map (\<lambda>k. case map_of rowdict k of Some v \<Rightarrow> v | None \<Rightarrow> Str []) names))"

text \<open>
  The loop \<open>for entry in entries: writer.writerow(entry)\<close>: the rows written, and
  whether the loop came to its end.
\<close>

fun write_rows :: "entry list \<Rightarrow> cell list list \<times> bool" where
  "write_rows [] = ([], True)"
| "write_rows (e # es) =
     (case dict_to_list fieldnames (entry_dict e) of
        Inl err \<Rightarrow> ([], False)
      | Inr r \<Rightarrow> (case write_rows es of (rs, ok) \<Rightarrow> (r # rs, ok)))"

text \<open>
  \<open>save_to_csv(entries, filename)\<close> on the list of the files written so far, the oldest
  first: nothing is written for an empty list of entries; otherwise the file is opened
  for writing, which replaces what the name held, and gets the header and the rows.  An
  exception while writing is caught and logged.
\<close>

definition save_to_csv ::
  "entry list \<Rightarrow> string \<Rightarrow> (string \<times> csv_file) list \<Rightarrow> (string \<times> csv_file) list" where
  "save_to_csv entries filename files =
     (if entries = [] then files
      else files @ [(filename, \<lparr>header = fieldnames, rows = fst (write_rows entries)\<rparr>)])"

section \<open>\<open>main\<close>\<close>

record args =
  args_start :: int
  args_end :: int
  args_workers :: int
  args_output :: string
  args_chunk_size :: int

text \<open>
  What the run meets outside the program: the page extraction (\<open>scrape p k\<close> is call
  number \<open>k\<close> of \<open>scrape_page(p)\<close> in a worker), a failure of the pool on the task of a
  page, the order in which \<open>as_completed\<close> hands back the pages of a chunk, and the
  user's interruption: \<open>interrupt = Some n\<close> when \<open>KeyboardInterrupt\<close> arrives after
  \<open>n\<close> statements of the \<open>try\<close> block of \<open>main\<close>, \<open>None\<close> when it never does.
\<close>

record world =
  scrape :: "int \<Rightarrow> nat \<Rightarrow> exn + entry list"
  pool_error :: "int \<Rightarrow> exn option"
  as_completed :: "int list \<Rightarrow> int list"
  interrupt :: "nat option"

text \<open>
  The variables of \<open>main\<close>, the files written, and \<open>sigint\<close>: the number of statements
  still to run before \<open>KeyboardInterrupt\<close> is raised.  At \<open>Some 0\<close> the exception is on
  its way to the \<open>except KeyboardInterrupt\<close> clause and no statement of the \<open>try\<close>
  block runs any more.
\<close>

record run_state =
  all_entries :: "entry list"
  global_seen_words :: "string set"
  chunk_entries :: "entry list"
  new_entries :: "entry list"
  written :: "(string \<times> csv_file) list"
  sigint :: "nat option"

definition halted :: "run_state \<Rightarrow> bool" where
  "halted s = (sigint s = Some 0)"

text \<open>One statement of the \<open>try\<close> block.\<close>

definition stmt :: "(run_state \<Rightarrow> run_state) \<Rightarrow> run_state \<Rightarrow> run_state" where
  "stmt f s =
     (case sigint s of
        None \<Rightarrow> f s
      | Some 0 \<Rightarrow> s
      | Some (Suc n) \<Rightarrow> f (s\<lparr>sigint := Some n\<rparr>))"

text \<open>\<open>future.result()\<close> for the task of a page, submitted with the default \<open>max_retries\<close>.\<close>

definition future_result :: "world \<Rightarrow> int \<Rightarrow> exn + entry list option" where
  "future_result w page_num =
     (case pool_error w page_num of
        Some e \<Rightarrow> Inl e
      | None \<Rightarrow> fst (scrape_page_with_retry (scrape w) page_num 3))"

text \<open>
  The loop \<open>for entry in page_entries\<close> that filters out the duplicates across all
  pages.
\<close>

fun filter_entries :: "entry list \<Rightarrow> run_state \<Rightarrow> run_state" where
  "filter_entries [] s = s"
| "filter_entries (e # es) s =
     filter_entries es
       (if word_key (word e) \<notin> global_seen_words s
        then stmt (\<lambda>s. s\<lparr>new_entries := new_entries s @ [e]\<rparr>)
               (stmt (\<lambda>s. s\<lparr>global_seen_words := insert (word_key (word e)) (global_seen_words s)\<rparr>) s)
        else s)"

text \<open>
  The body of \<open>for future in as_completed(future_to_page)\<close>.  An \<open>Exception\<close> of the
  task is caught and logged; so is the \<open>TypeError\<close> of iterating over \<open>None\<close>, which
  comes after \<open>new_entries = []\<close>.  A \<open>KeyboardInterrupt\<close> of the task is raised in
  \<open>main\<close> by \<open>future.result()\<close>.
\<close>

definition merge_page :: "exn + entry list option \<Rightarrow> run_state \<Rightarrow> run_state" where
  "merge_page result s =
     (case result of
        Inl KeyboardInterrupt \<Rightarrow> s\<lparr>sigint := Some 0\<rparr>
      | Inl (Exception m) \<Rightarrow> s
      | Inr None \<Rightarrow> stmt (\<lambda>s. s\<lparr>new_entries := []\<rparr>) s
      | Inr (Some page_entries) \<Rightarrow>
          stmt (\<lambda>s. s\<lparr>all_entries := all_entries s @ new_entries s\<rparr>)
            (stmt (\<lambda>s. s\<lparr>chunk_entries := chunk_entries s @ new_entries s\<rparr>)
               (filter_entries page_entries
                  (stmt (\<lambda>s. s\<lparr>new_entries := []\<rparr>) s))))"

definition chunk_filename :: "string \<Rightarrow> chunk \<Rightarrow> string" where
  "chunk_filename base c =
     base @ ''_chunk'' @ str_nat (chunk_start c) @ ''-'' @ str_nat (chunk_end c) @ ''.csv''"

text \<open>The body of the loop over the chunks.\<close>

definition process_chunk :: "world \<Rightarrow> string \<Rightarrow> chunk \<Rightarrow> run_state \<Rightarrow> run_state" where
  "process_chunk w output c s =
     stmt (\<lambda>s. if chunk_entries s \<noteq> []
               then s\<lparr>written := save_to_csv (chunk_entries s)
                                   (chunk_filename (splitext_root output) c) (written s)\<rparr>
               else s)
       (fold (\<lambda>page_num. merge_page (future_result w page_num))
          (as_completed w (chunk_pages c))
          (stmt (\<lambda>s. s\<lparr>chunk_entries := []\<rparr>) s))"

definition initial_state :: "nat option \<Rightarrow> run_state" where
  "initial_state i =
     \<lparr>all_entries = [], global_seen_words = {}, chunk_entries = [], new_entries = [],
      written = [], sigint = i\<rparr>"

text \<open>The \<open>try\<close> block: the chunks in their order.\<close>

definition run_chunks :: "world \<Rightarrow> string \<Rightarrow> chunk list \<Rightarrow> run_state \<Rightarrow> run_state" where
  "run_chunks w output cs s = fold (process_chunk w output) cs s"

text \<open>
  \<open>main\<close>: the \<open>ValueError\<close> of a zero chunk size, or of a worker count below one when
  the first pool is made, is not caught and ends the run; otherwise the chunks are
  processed, and after the \<open>try\<close> statement the collected entries are saved to the
  output file.
\<close>

definition main :: "args \<Rightarrow> world \<Rightarrow> exn + run_state" where
  "main a w =
     (case chunks_of (args_start a) (args_end a) (args_chunk_size a) of
        Inl e \<Rightarrow> Inl e
      | Inr cs \<Rightarrow>
          if cs \<noteq> [] \<and> args_workers a \<le> 0 then Inl (Exception ''ValueError'')
          else (let s = run_chunks w (args_output a) cs (initial_state (interrupt w))
                in Inr (s\<lparr>written := save_to_csv (all_entries s) (args_output a) (written s)\<rparr>)))"

text \<open>The two counters of the summary: the entries collected and the unique words.\<close>

definition total_entries :: "run_state \<Rightarrow> nat" where
  "total_entries s = length (all_entries s)"

definition total_unique_words :: "run_state \<Rightarrow> nat" where
  "total_unique_words s = card (global_seen_words s)"

section \<open>Notions used to state the properties\<close>

text \<open>The normalized term of an entry.\<close>

definition entry_key :: "entry \<Rightarrow> string" where
  "entry_key e = word_key (word e)"

text \<open>
  Of a sequence of candidate records, the first one met for every normalized term, in
  the order of the sequence.
\<close>

fun keep_first :: "entry list \<Rightarrow> entry list" where
  "keep_first [] = []"
| "keep_first (e # es) = e # keep_first (filter (\<lambda>x. entry_key x \<noteq> entry_key e) es)"

text \<open>
  The candidate records that the result of a page's task brings, and those of a chunk
  and of a list of chunks in the order in which the run meets them.
\<close>

fun page_candidates :: "exn + entry list option \<Rightarrow> entry list" where
  "page_candidates (Inr (Some es)) = es"
| "page_candidates (Inr None) = []"
| "page_candidates (Inl e) = []"

definition chunk_candidates :: "world \<Rightarrow> chunk \<Rightarrow> entry list" where
  "chunk_candidates w c =
     concat (map (\<lambda>page_num. page_candidates (future_result w page_num))
                 (as_completed w (chunk_pages c)))"

definition candidates :: "world \<Rightarrow> chunk list \<Rightarrow> entry list" where
  "candidates w cs = concat (map (chunk_candidates w) cs)"

text \<open>The line of an entry in a table: its values in the order of the columns.\<close>

definition row_of :: "entry \<Rightarrow> cell list" where
  "row_of e = [Str (word e), Str (definition_text e), Str (example e), Str (contributor e),
               Str (date e), Num (upvotes e), Num (downvotes e), Num (page e),
               Str (scraped_date e)]"

section \<open>Invariants of the run\<close>

text \<open>
  Between two pages: \<open>A\<close> is the sequence of the candidates merged so far, \<open>U\<close> tells
  whether the user interrupts the run.  The entries collected are the first occurrences
  in \<open>A\<close>; the seen words are the terms of \<open>A\<close>, or more when the interruption came in
  the middle of a page.
\<close>

definition run_inv :: "bool \<Rightarrow> entry list \<Rightarrow> run_state \<Rightarrow> bool" where
  "run_inv U A s =
     (all_entries s = keep_first A
      \<and> finite (global_seen_words s)
      \<and> entry_key ` set A \<subseteq> global_seen_words s
      \<and> (global_seen_words s = entry_key ` set A \<or> (halted s \<and> U))
      \<and> (\<not> U \<longrightarrow> sigint s = None \<or> sigint s = Some 0))"

text \<open>
  Inside the loop over the entries of a page, of which \<open>P\<close> have been met.
\<close>

definition page_inv :: "bool \<Rightarrow> entry list \<Rightarrow> entry list \<Rightarrow> run_state \<Rightarrow> bool" where
  "page_inv U A P s =
     (all_entries s = keep_first A
      \<and> finite (global_seen_words s)
      \<and> entry_key ` set A \<subseteq> global_seen_words s
      \<and> (if halted s then U
          else global_seen_words s = entry_key ` set (A @ P)
               \<and> all_entries s @ new_entries s = keep_first (A @ P))
      \<and> (\<not> U \<longrightarrow> sigint s = None))"

text \<open>
  A part of the \<open>try\<close> block, as a function on the state, takes the interruption as the
  block does: it leaves a state alone in which the exception has been raised; without
  a countdown it ends without one, or with the exception of a task raised; and when it
  runs to its end without interruption, then for every countdown \<open>k\<close> wanted at its
  end there is a countdown at its start that makes it run in the same way and end
  with \<open>k\<close>.
\<close>

definition interruptible :: "(run_state \<Rightarrow> run_state) \<Rightarrow> bool" where
  "interruptible P =
     ((\<forall>s. halted s \<longrightarrow> P s = s)
      \<and> (\<forall>s. sigint s = None \<longrightarrow> sigint (P s) = None \<or> sigint (P s) = Some 0)
      \<and> (\<forall>s k. sigint s = None \<and> sigint (P s) = None \<longrightarrow>
            (\<exists>n. P (s\<lparr>sigint := Some n\<rparr>) = (P s)\<lparr>sigint := Some k\<rparr>)))"

section \<open>A sample run\<close>

text \<open>
  Three pages in chunks of two.  Page 1 has the words \<open>Lit\<close> and \<open>yeet\<close>, page 2 has
  \<open>lit\<close> with a space after it and \<open>sus\<close>, page 3 has \<open>YEET\<close> and \<open>rizz\<close>; every task
  succeeds at its first call, and the pages of a chunk complete in the reverse of the
  order of their submission.
\<close>

definition sample_entry :: "string \<Rightarrow> int \<Rightarrow> entry" where
  "sample_entry w p =
     \<lparr>word = w, definition_text = ''a word'', example = ''as they say'', contributor = ''ann'',
      date = ''May 2021'', upvotes = 3, downvotes = 1, page = p, scraped_date = ''2024-05-01''\<rparr>"

definition sample_pages :: "int \<Rightarrow> nat \<Rightarrow> exn + entry list" where
  "sample_pages p k =
     (if p = 1 then Inr [sample_entry ''Lit'' 1, sample_entry ''yeet'' 1]
      else if p = 2 then Inr [sample_entry ''lit '' 2, sample_entry ''sus'' 2]
      else Inr [sample_entry ''YEET'' p, sample_entry ''rizz'' p])"

definition sample_world :: "nat option \<Rightarrow> world" where
  "sample_world i =
     \<lparr>scrape = sample_pages, pool_error = (\<lambda>p. None), as_completed = rev, interrupt = i\<rparr>"

definition sample_args :: args where
  "sample_args =
     \<lparr>args_start = 1, args_end = 3, args_workers = 2, args_output = ''data/out.csv'',
      args_chunk_size = 2\<rparr>"

section \<open>Properties of the chunking loop\<close>

lemma slice_upto:
  assumes "j \<le> length [a..b]"
  shows "slice [a..b] i j = [a + int i .. a + int j - 1]"
proof (rule nth_equalityI)
  show "length (slice [a..b] i j) = length [a + int i .. a + int j - 1]"
    using assms by (auto simp: slice_def)
next
  fix k assume "k < length (slice [a..b] i j)"
  then have k: "k < j - i" "i + k < length [a..b]"
    using assms by (auto simp: slice_def)
  then have "slice [a..b] i j ! k = [a..b] ! (i + k)"
    by (simp add: slice_def)
  also have "\<dots> = a + int (i + k)"
    using k by (intro nth_upto) auto
  also have "\<dots> = [a + int i .. a + int j - 1] ! k"
    using k by (subst nth_upto) auto
  finally show "slice [a..b] i j ! k = [a + int i .. a + int j - 1] ! k" .
qed

lemma chunk_end_of_pos:
  "0 < chunk_size \<Longrightarrow> chunk_end_of n chunk_size cs = min (cs + nat chunk_size) n"
  by (auto simp: chunk_end_of_def min_def)

lemma range_from_step:
  "0 < step \<Longrightarrow> i < n \<Longrightarrow> range_from i n step = i # range_from (i + step) n step"
  by (subst range_from.simps) simp

lemma range_from_stop: "\<not> (0 < step \<and> i < n) \<Longrightarrow> range_from i n step = []"
  by (subst range_from.simps) simp

lemma range_from_bounds: "c \<in> set (range_from i n step) \<Longrightarrow> i \<le> c \<and> c < n"
proof (induction i n step rule: range_from.induct)
  case (1 i n step)
  show ?case
  proof (cases "0 < step \<and> i < n")
    case True
    with 1 show ?thesis by (fastforce simp: range_from_step)
  next
    case False
    with 1 show ?thesis by (simp add: range_from_stop)
  qed
qed

lemma range_from_sorted: "sorted_wrt (<) (range_from i n step)"
proof (induction i n step rule: range_from.induct)
  case (1 i n step)
  show ?case
  proof (cases "0 < step \<and> i < n")
    case True
    have "\<forall>c \<in> set (range_from (i + step) n step). i < c"
      using range_from_bounds [of _ "i + step" n step] True by fastforce
    moreover have "sorted_wrt (<) (range_from (i + step) n step)"
      using 1 True by simp
    ultimately show ?thesis
      using True by (simp add: range_from_step)
  next
    case False
    then show ?thesis by (simp add: range_from_stop)
  qed
qed

lemma concat_slices:
  "0 < step \<Longrightarrow>
   concat (map (\<lambda>c. slice xs c (min (c + step) (length xs))) (range_from i (length xs) step))
     = drop i xs"
proof (induction i "length xs" step rule: range_from.induct)
  case (1 i step)
  show ?case
  proof (cases "i < length xs")
    case True
    have "slice xs i (min (i + step) (length xs)) @ drop (i + step) xs = drop i xs"
    proof (cases "i + step \<le> length xs")
      case True
      then have "slice xs i (min (i + step) (length xs)) = take step (drop i xs)"
        by (simp add: slice_def min_def)
      moreover have "drop (i + step) xs = drop step (drop i xs)"
        by (simp add: add.commute)
      ultimately show ?thesis by (simp only: append_take_drop_id)
    next
      case False
      then show ?thesis by (simp add: slice_def min_def)
    qed
    with True 1 show ?thesis
      by (simp add: range_from_step)
  next
    case False
    then show ?thesis by (simp add: range_from_stop)
  qed
qed

lemma chunks_of_eq:
  "0 < chunk_size \<Longrightarrow>
   chunks_of start end chunk_size =
     Inr (map (mk_chunk [start..end] chunk_size)
            (range_from 0 (length [start..end]) (nat chunk_size)))"
  by (simp add: chunks_of_def chunk_starts_def page_numbers_def Let_def)

lemma chunk_shape:
  assumes "0 < chunk_size" and "i \<in> set (range_from 0 (length [start..end]) (nat chunk_size))"
  defines "c \<equiv> mk_chunk [start..end] chunk_size i"
  shows "chunk_start c = i"
    and "chunk_end c = min (i + nat chunk_size) (length [start..end])"
    and "chunk_start c < chunk_end c"
    and "chunk_pages c = [start + int (chunk_start c) .. start + int (chunk_end c) - 1]"
proof -
  have b: "i < length [start..end]" using assms(2) range_from_bounds by blast
  show s: "chunk_start c = i"
    by (simp add: c_def mk_chunk_def Let_def)
  show e: "chunk_end c = min (i + nat chunk_size) (length [start..end])"
    using assms(1) by (simp add: c_def mk_chunk_def Let_def chunk_end_of_pos)
  show "chunk_start c < chunk_end c"
    using b assms(1) by (simp add: s e)
  have "chunk_pages c = slice [start..end] i (chunk_end c)"
    using assms(1) by (simp add: c_def mk_chunk_def Let_def)
  also have "\<dots> = [start + int i .. start + int (chunk_end c) - 1]"
    by (rule slice_upto) (simp add: e)
  finally show "chunk_pages c = [start + int (chunk_start c) .. start + int (chunk_end c) - 1]"
    by (simp only: s)
qed

text \<open>
  Claim C3.  For a positive chunk size and \<open>start \<le> end\<close>, the chunking loop cuts the
  page range into chunks whose pages, put one after the other, are exactly the pages
  from \<open>start\<close> to \<open>end\<close>: no gap and no overlap.  Every chunk is a run of consecutive
  pages that is not empty and not longer than the chunk size, and the chunks come in
  ascending order of their start.  For 1, 120 and 50 the chunks are the pages 1 to 50,
  51 to 100 and 101 to 120.
\<close>

theorem chunks_partition_page_range:
  assumes "start \<le> end" and "0 < chunk_size"
  shows "(\<exists>cs. chunks_of start end chunk_size = Inr cs
           \<and> concat (map chunk_pages cs) = [start..end]
           \<and> (\<forall>c \<in> set cs. chunk_start c < chunk_end c
                 \<and> chunk_pages c = [start + int (chunk_start c) .. start + int (chunk_end c) - 1]
                 \<and> int (length (chunk_pages c)) \<le> chunk_size)
           \<and> sorted_wrt (<) (map chunk_start cs)
           \<and> sorted_wrt (<) (map (hd \<circ> chunk_pages) cs))
         \<and> map chunk_pages (projr (chunks_of 1 120 50)) = [[1..50], [51..100], [101..120]]"
proof -
  define step where "step = nat chunk_size"
  define css where "css = range_from 0 (length [start..end]) step"
  define cs where "cs = map (mk_chunk [start..end] chunk_size) css"
  have step: "0 < step" using assms by (simp add: step_def)
  have eq: "chunks_of start end chunk_size = Inr cs"
    using assms(2) by (simp add: chunks_of_eq cs_def css_def step_def)
  have pages: "chunk_pages (mk_chunk [start..end] chunk_size c)
                 = slice [start..end] c (min (c + step) (length [start..end]))" for c
    using assms by (simp add: mk_chunk_def Let_def chunk_end_of_pos step_def)
  have cover: "concat (map chunk_pages cs) = [start..end]"
  proof -
    have "concat (map chunk_pages cs) = drop 0 [start..end]"
      using concat_slices [OF step, of "[start..end]" 0]
      by (simp add: cs_def css_def comp_def pages)
    then show ?thesis by simp
  qed
  have each: "chunk_start c < chunk_end c
       \<and> chunk_pages c = [start + int (chunk_start c) .. start + int (chunk_end c) - 1]
       \<and> int (length (chunk_pages c)) \<le> chunk_size" if "c \<in> set cs" for c
  proof -
    from that obtain i where i: "i \<in> set (range_from 0 (length [start..end]) (nat chunk_size))"
      and c: "c = mk_chunk [start..end] chunk_size i"
      by (auto simp: cs_def css_def step_def)
    note sh = chunk_shape [OF assms(2) i, folded c]
    have "length (chunk_pages c) = chunk_end c - chunk_start c"
      using sh(3) by (subst sh(4)) simp
    then have "length (chunk_pages c) \<le> nat chunk_size"
      by (simp add: sh(1,2))
    then have "int (length (chunk_pages c)) \<le> chunk_size"
      using assms(2) by simp
    with sh(3,4) show ?thesis by simp
  qed
  have asc: "sorted_wrt (<) (map chunk_start cs)"
  proof -
    have "map chunk_start cs = css"
      by (simp add: cs_def comp_def mk_chunk_def Let_def)
    then show ?thesis by (simp add: css_def range_from_sorted)
  qed
  have asc2: "sorted_wrt (<) (map (hd \<circ> chunk_pages) cs)"
  proof -
    have hd_eq: "hd (chunk_pages c) = start + int (chunk_start c)" if "c \<in> set cs" for c
      using each [OF that] by (simp add: upto.simps)
    have "sorted_wrt (\<lambda>x y. chunk_start x < chunk_start y) cs"
      using asc by (simp add: sorted_wrt_map)
    then have "sorted_wrt (\<lambda>x y. hd (chunk_pages x) < hd (chunk_pages y)) cs"
      by (rule sorted_wrt_mono_rel [rotated]) (simp add: hd_eq)
    then show ?thesis by (simp add: sorted_wrt_map)
  qed
  have ex: "map chunk_pages (projr (chunks_of 1 120 50)) = [[1..50], [51..100], [101..120]]"
    by code_simp
  from eq cover each asc asc2 ex show ?thesis by blast
qed

text \<open>The theorem at the pages 1 to 120 in chunks of 50.\<close>

theorem chunks_partition_page_range_witness:
  "(1::int) \<le> 120 \<and> (0::int) < 50
   \<and> (\<exists>cs. chunks_of 1 120 50 = Inr cs \<and> concat (map chunk_pages cs) = [1..120]
         \<and> map chunk_pages cs = [[1..50], [51..100], [101..120]])"
proof -
  have h: "(1::int) \<le> 120" "(0::int) < 50" by simp_all
  from chunks_partition_page_range [OF h] show ?thesis
    by (auto simp: h)
qed

section \<open>Properties of \<open>scrape_page_with_retry\<close>\<close>

lemma retry_loop_all_fail:
  "int attempt < max_retries \<Longrightarrow> \<forall>k. \<exists>m. scrape_fn page_num k = Inl (Exception m) \<Longrightarrow>
   retry_loop scrape_fn page_num max_retries attempt = (Inr (Some []), nat max_retries)"
proof (induction scrape_fn page_num max_retries attempt rule: retry_loop.induct)
  case (1 scrape_fn page_num max_retries attempt)
  from 1(3) obtain m where m: "scrape_fn page_num attempt = Inl (Exception m)" by blast
  show ?case
  proof (cases "int attempt < max_retries - 1")
    case True
    then have "retry_loop scrape_fn page_num max_retries (attempt + 1) = (Inr (Some []), nat max_retries)"
      using 1 m by simp
    then show ?thesis
      using 1(2) m True by (subst retry_loop.simps) simp
  next
    case False
    then have "attempt + 1 = nat max_retries" using 1(2) by linarith
    then show ?thesis
      using 1(2) m False by (subst retry_loop.simps) simp
  qed
qed

lemma retry_loop_no_escape:
  "int attempt < max_retries \<Longrightarrow> \<forall>k. scrape_fn page_num k \<noteq> Inl KeyboardInterrupt \<Longrightarrow>
   \<exists>entries n. retry_loop scrape_fn page_num max_retries attempt = (Inr (Some entries), n)
      \<and> attempt < n \<and> int n \<le> max_retries"
proof (induction scrape_fn page_num max_retries attempt rule: retry_loop.induct)
  case (1 scrape_fn page_num max_retries attempt)
  show ?case
  proof (cases "scrape_fn page_num attempt")
    case (Inr entries)
    then show ?thesis
      using 1(2) by (subst retry_loop.simps) simp
  next
    case (Inl e)
    with 1(3) obtain m where m: "scrape_fn page_num attempt = Inl (Exception m)"
      by (cases e) auto
    show ?thesis
    proof (cases "int attempt < max_retries - 1")
      case True
      then obtain entries n where
        "retry_loop scrape_fn page_num max_retries (attempt + 1) = (Inr (Some entries), n)"
        "attempt + 1 < n" "int n \<le> max_retries"
        using 1 m by fastforce
      then show ?thesis
        using 1(2) m True by (subst retry_loop.simps) simp
    next
      case False
      then show ?thesis
        using 1(2) m by (subst retry_loop.simps) simp
    qed
  qed
qed

text \<open>
  With \<open>max_retries = 0\<close> the loop body never runs: the extraction is not called and
  the function ends without \<open>return\<close>, so that its value is \<open>None\<close> and not the empty
  list.  A \<open>KeyboardInterrupt\<close> of the extraction is not an \<open>Exception\<close> and leaves the
  function at the first call.
\<close>

theorem retry_none_without_attempts:
  "scrape_page_with_retry (\<lambda>p k. Inl (Exception ''TimeoutException'')) 7 0 = (Inr None, 0)
   \<and> fst (scrape_page_with_retry (\<lambda>p k. Inl (Exception ''TimeoutException'')) 7 0) \<noteq> Inr (Some [])
   \<and> scrape_page_with_retry (\<lambda>p k. Inl KeyboardInterrupt) 7 3 = (Inl KeyboardInterrupt, 1)"
  by (simp add: scrape_page_with_retry_def retry_loop.simps)

text \<open>
  Claim C2, amended.  For \<open>max_retries\<close> of at least 1: when every call of the page
  extraction raises an \<open>Exception\<close>, \<open>scrape_page_with_retry\<close> calls it exactly
  \<open>max_retries\<close> times and returns the empty list; and when no call raises a
  \<open>KeyboardInterrupt\<close>, whatever else the calls do, no exception leaves
  \<open>scrape_page_with_retry\<close>: it returns a list after at least one and at most
  \<open>max_retries\<close> calls.
\<close>

theorem retry_exhaustion_gives_empty_list:
  assumes "0 < max_retries"
  shows "((\<forall>k. \<exists>m. scrape_fn page_num k = Inl (Exception m)) \<longrightarrow>
            scrape_page_with_retry scrape_fn page_num max_retries = (Inr (Some []), nat max_retries))
         \<and> ((\<forall>k. scrape_fn page_num k \<noteq> Inl KeyboardInterrupt) \<longrightarrow>
            (\<exists>entries n. scrape_page_with_retry scrape_fn page_num max_retries = (Inr (Some entries), n)
                \<and> 0 < n \<and> int n \<le> max_retries))"
proof (intro conjI impI)
  assume "\<forall>k. \<exists>m. scrape_fn page_num k = Inl (Exception m)"
  then show "scrape_page_with_retry scrape_fn page_num max_retries = (Inr (Some []), nat max_retries)"
    using assms retry_loop_all_fail [where attempt = 0 and scrape_fn = scrape_fn and page_num = page_num and max_retries = max_retries]
    by (simp add: scrape_page_with_retry_def)
next
  assume "\<forall>k. scrape_fn page_num k \<noteq> Inl KeyboardInterrupt"
  then show "\<exists>entries n. scrape_page_with_retry scrape_fn page_num max_retries = (Inr (Some entries), n)
                \<and> 0 < n \<and> int n \<le> max_retries"
    using assms retry_loop_no_escape [where attempt = 0 and scrape_fn = scrape_fn and page_num = page_num and max_retries = max_retries]
    by (fastforce simp: scrape_page_with_retry_def)
qed

text \<open>
  The theorem at three retries, for an extraction that always times out and for one that
  succeeds at its third call.
\<close>

theorem retry_exhaustion_gives_empty_list_witness:
  "(0::int) < 3
   \<and> scrape_page_with_retry (\<lambda>p k. Inl (Exception ''TimeoutException'')) 7 3 = (Inr (Some []), 3)
   \<and> (\<exists>entries n. scrape_page_with_retry
          (\<lambda>p k. if k < 2 then Inl (Exception ''TimeoutException'') else Inr []) 7 3
            = (Inr (Some entries), n) \<and> 0 < n \<and> int n \<le> 3)"
proof -
  have h: "(0::int) < 3" by simp
  from retry_exhaustion_gives_empty_list
         [OF h, of "\<lambda>p k. Inl (Exception ''TimeoutException'')" 7]
  have 1: "scrape_page_with_retry (\<lambda>p k. Inl (Exception ''TimeoutException'')) 7 3
             = (Inr (Some []), 3)"
    by simp
  from retry_exhaustion_gives_empty_list
         [OF h, of "\<lambda>p k. if k < 2 then Inl (Exception ''TimeoutException'') else Inr []" 7]
  have 2: "\<exists>entries n. scrape_page_with_retry
          (\<lambda>p k. if k < 2 then Inl (Exception ''TimeoutException'') else Inr []) 7 3
            = (Inr (Some entries), n) \<and> 0 < n \<and> int n \<le> 3"
    by simp
  from h 1 2 show ?thesis by blast
qed

section \<open>Properties of \<open>extract_date\<close> and of the contributor\<close>

lemma first_match_append:
  "\<forall>p \<in> set ps. search p t = None \<Longrightarrow> first_match (ps @ qs) t = first_match qs t"
  by (induction ps) auto

lemma first_match_none:
  "\<forall>p \<in> set ps. search p t = None \<Longrightarrow> first_match ps t = None"
  by (induction ps) auto

lemma date_patterns_need_text: "\<forall>p \<in> set date_patterns. search p [] = None"
  by code_simp

lemma old_method_empty: "old_method [] = []"
  by code_simp

text \<open>
  For the text \<open>by alice bob carol!\<close> no pattern of the list matches, and the date
  returned is \<open>carol!\<close>, not the empty string.
\<close>

theorem extract_date_fallback_not_empty:
  "map (\<lambda>p. search p ''by alice bob carol!'') date_patterns = [None, None, None]
   \<and> extract_date ''by alice bob carol!'' = ''carol!''"
  by code_simp

text \<open>
  Claim C6, amended.  \<open>extract_date\<close> returns the date matched by the first pattern of
  the ordered list that matches the attribution text.  When no pattern of the list
  matches, it returns what the old method finds: of the text after the first \<open>"by "\<close>,
  the words from the third on, joined by spaces; this is the empty string when the text
  has no \<open>"by "\<close>.
\<close>

theorem extract_date_first_matching_pattern:
  "(date_patterns = ps @ q # qs \<and> (\<forall>p \<in> set ps. search p t = None) \<and> search q t = Some g
      \<longrightarrow> extract_date t = g)
   \<and> ((\<forall>p \<in> set date_patterns. search p t = None) \<longrightarrow>
        extract_date t = old_method t
        \<and> (length (split t ''by '') < 2 \<longrightarrow> extract_date t = [])
        \<and> (\<forall>a r. split t ''by '' = a # r \<and> r \<noteq> [] \<longrightarrow>
              extract_date t = join '' '' (drop 2 (split (hd r) '' ''))))"
proof (intro conjI impI)
  assume h: "date_patterns = ps @ q # qs \<and> (\<forall>p \<in> set ps. search p t = None) \<and> search q t = Some g"
  then have dp: "date_patterns = ps @ q # qs" and ps: "\<forall>p \<in> set ps. search p t = None"
    and q: "search q t = Some g"
    by blast+
  have "first_match (ps @ q # qs) t = first_match (q # qs) t"
    using ps by (rule first_match_append)
  then have fm: "first_match date_patterns t = Some g"
    using q by (subst dp) simp
  have "t \<noteq> []"
  proof
    assume "t = []"
    moreover have "q \<in> set date_patterns" by (subst dp) simp
    ultimately show False using q date_patterns_need_text by auto
  qed
  with fm show "extract_date t = g" by (simp add: extract_date_def)
next
  assume h: "\<forall>p \<in> set date_patterns. search p t = None"
  then have fm: "first_match date_patterns t = None" by (rule first_match_none)
  show om: "extract_date t = old_method t"
    using fm old_method_empty by (simp add: extract_date_def)
  show "extract_date t = []" if "length (split t ''by '') < 2"
  proof -
    from that have "old_method t = []"
      by (cases "split t ''by ''"; cases "tl (split t ''by '')") (auto simp: old_method_def)
    with om show ?thesis by simp
  qed
  show "\<forall>a r. split t ''by '' = a # r \<and> r \<noteq> [] \<longrightarrow>
          extract_date t = join '' '' (drop 2 (split (hd r) '' ''))"
  proof (intro allI impI)
    fix a r assume "split t ''by '' = a # r \<and> r \<noteq> []"
    then have "old_method t = join '' '' (drop 2 (split (hd r) '' ''))"
      by (cases r) (auto simp: old_method_def)
    with om show "extract_date t = join '' '' (drop 2 (split (hd r) '' ''))" by simp
  qed
qed

text \<open>
  The theorem at \<open>by a 12 March 2020\<close>, where the first pattern fails and the second
  matches, and at \<open>by a b c d\<close>, where none matches.
\<close>

theorem extract_date_first_matching_pattern_witness:
  "extract_date ''by a 12 March 2020'' = ''12 March 2020''
   \<and> map (\<lambda>p. search p ''by a b c d'') date_patterns = [None, None, None]
   \<and> extract_date ''by a b c d'' = ''c d''"
proof -
  have d: "date_patterns = [hd date_patterns] @ (date_patterns ! 1) # [date_patterns ! 2]"
    by code_simp
  have n: "\<forall>p \<in> set [hd date_patterns]. search p ''by a 12 March 2020'' = None"
    by code_simp
  have m: "search (date_patterns ! 1) ''by a 12 March 2020'' = Some ''12 March 2020''"
    by code_simp
  have 1: "extract_date ''by a 12 March 2020'' = ''12 March 2020''"
    using extract_date_first_matching_pattern
            [of "[hd date_patterns]" "date_patterns ! 1" "[date_patterns ! 2]"
                "''by a 12 March 2020''" "''12 March 2020''"] d n m
    by blast
  have z: "\<forall>p \<in> set date_patterns. search p ''by a b c d'' = None"
    by code_simp
  have s: "split ''by a b c d'' ''by '' = [] # [''a b c d'']"
    by code_simp
  have j: "join '' '' (drop 2 (split ''a b c d'' '' '')) = ''c d''"
    by code_simp
  note t = extract_date_first_matching_pattern
             [of "[hd date_patterns]" "date_patterns ! 1" "[date_patterns ! 2]"
                 "''by a b c d''" "''12 March 2020''", THEN conjunct2, THEN mp, OF z]
  have "split ''by a b c d'' ''by '' = [] # [''a b c d''] \<and> [''a b c d''] \<noteq> []"
    using s by simp
  with t have "extract_date ''by a b c d'' = join '' '' (drop 2 (split (hd [''a b c d'']) '' ''))"
    by blast
  then have 2: "extract_date ''by a b c d'' = ''c d''"
    using j by simp
  have y: "map (\<lambda>p. search p ''by a b c d'') date_patterns = [None, None, None]"
    by code_simp
  from 1 y 2 show ?thesis by blast
qed

text \<open>
  Claim C7.  The comment in \<open>scrape_page\<close> says that the contributor is the attribution
  text without the date and without the \<open>"by"\<close> prefix.  The code removes every
  \<open>"by"\<close> of the text: for the attribution \<open>by Bobby March 5, 2020\<close> the date is
  \<open>March 5, 2020\<close> and the contributor read is \<open>Bob\<close>, where the claim gives \<open>Bobby\<close>.
\<close>

theorem contributor_loses_inner_by:
  "extract_date ''by Bobby March 5, 2020'' = ''March 5, 2020''
   \<and> contributor_of ''by Bobby March 5, 2020'' (extract_date ''by Bobby March 5, 2020'') = ''Bob''
   \<and> map_sum id contributor
        (read_entry (\<lambda>b sel. if b = CSS_SELECTOR \<and> sel = ''.contributor''
                              then Found ''by Bobby March 5, 2020''
                              else NoSuchElementException)
           ''yeet'' 1 ''2024-05-01'') = Inr ''Bob''"
  by code_simp

section \<open>Properties of \<open>extract_votes\<close>\<close>

lemma py_int_sign:
  assumes "py_int t = Some n" and "CHR ''-'' \<notin> set t"
  shows "0 \<le> n"
proof -
  define u where "u = strip_where is_c_space t"
  have "set u \<subseteq> set t"
    unfolding u_def strip_where_def
    by (metis set_dropWhileD set_rev subsetI)
  with assms(2) have "u = [] \<or> hd u \<noteq> CHR ''-''"
    by (cases u) auto
  with assms(1) show ?thesis
    by (auto simp: py_int_def Let_def u_def split: if_splits)
qed

lemma votes_loop_total:
  "\<forall>b sel. element b sel \<noteq> WebDriverException \<Longrightarrow> \<exists>t. votes_loop element sels vt = Inr t"
  by (induction sels arbitrary: vt) (auto split: found.splits)

text \<open>
  When the vote selectors find the text \<open>-5\<close>, which is not a digit string, \<open>int\<close>
  parses it and \<open>extract_votes\<close> returns the negative number.
\<close>

theorem extract_votes_negative:
  "extract_votes (\<lambda>b sel. Found ''-5'') True = Inr (- 5)"
  by code_simp

text \<open>
  Claim C8, amended.  \<open>extract_votes\<close> lets a \<open>WebDriverException\<close> of a lookup pass and
  otherwise returns an integer, read from the vote text that its loop over the selectors
  ends with: 0 whenever \<open>int\<close> cannot parse that text, and a number that is not negative
  whenever the text has no minus sign.
\<close>

theorem extract_votes_value:
  "((\<forall>b sel. element b sel \<noteq> WebDriverException) \<longrightarrow> (\<exists>v. extract_votes element is_upvote = Inr v))
   \<and> (extract_votes element is_upvote = Inr v \<longrightarrow>
        (\<exists>vote_text. votes_loop element (vote_selectors is_upvote) [] = Inr vote_text
           \<and> (py_int vote_text = None \<longrightarrow> v = 0)
           \<and> (CHR ''-'' \<notin> set vote_text \<longrightarrow> 0 \<le> v)))"
proof (intro conjI impI)
  assume "\<forall>b sel. element b sel \<noteq> WebDriverException"
  then obtain t where "votes_loop element (vote_selectors is_upvote) [] = Inr t"
    using votes_loop_total by blast
  then show "\<exists>v. extract_votes element is_upvote = Inr v"
    by (cases "py_int t") (simp_all add: extract_votes_def)
next
  assume v: "extract_votes element is_upvote = Inr v"
  then obtain t where t: "votes_loop element (vote_selectors is_upvote) [] = Inr t"
    by (auto simp: extract_votes_def split: sum.splits)
  have "py_int t = None \<longrightarrow> v = 0"
    using v t by (auto simp: extract_votes_def)
  moreover have "CHR ''-'' \<notin> set t \<longrightarrow> 0 \<le> v"
  proof
    assume m: "CHR ''-'' \<notin> set t"
    show "0 \<le> v"
    proof (cases "py_int t")
      case None
      with v t show ?thesis by (simp add: extract_votes_def)
    next
      case (Some n)
      with v t have "v = n" by (simp add: extract_votes_def)
      with py_int_sign [OF Some m] show ?thesis by simp
    qed
  qed
  ultimately show "\<exists>vote_text. votes_loop element (vote_selectors is_upvote) [] = Inr vote_text
           \<and> (py_int vote_text = None \<longrightarrow> v = 0)
           \<and> (CHR ''-'' \<notin> set vote_text \<longrightarrow> 0 \<le> v)"
    using t by (intro exI [of _ t]) simp
qed

text \<open>
  The theorem at an element whose vote text is \<open>1.2k\<close> under every selector: the
  text cannot be parsed and the votes are 0.
\<close>

theorem extract_votes_value_witness:
  "extract_votes (\<lambda>b sel. Found ''1.2k'') True = Inr 0
   \<and> votes_loop (\<lambda>b sel. Found ''1.2k'') (vote_selectors True) [] = Inr ''1.2k''
   \<and> py_int ''1.2k'' = None \<and> CHR ''-'' \<notin> set ''1.2k''"
proof -
  have e: "extract_votes (\<lambda>b sel. Found ''1.2k'') True = Inr 0" by code_simp
  have l: "votes_loop (\<lambda>b sel. Found ''1.2k'') (vote_selectors True) [] = Inr ''1.2k''"
    by code_simp
  have p: "py_int ''1.2k'' = None" by code_simp
  from extract_votes_value [of "\<lambda>b sel. Found ''1.2k''" True 0] e l p
  show ?thesis by simp
qed

section \<open>Properties of \<open>save_to_csv\<close>\<close>

lemma dict_to_list_entry: "dict_to_list fieldnames (entry_dict e) = Inr (row_of e)"
  by (simp add: dict_to_list_def fieldnames_def entry_dict_def row_of_def)

lemma write_rows_entries: "write_rows es = (map row_of es, True)"
  by (induction es) (simp_all add: dict_to_list_entry)

lemma save_to_csv_file:
  "save_to_csv es name files =
     (if es = [] then files
      else files @ [(name, \<lparr>header = fieldnames, rows = map row_of es\<rparr>)])"
  by (simp add: save_to_csv_def write_rows_entries)

section \<open>Duplicates within a page\<close>

lemma read_entry_word: "read_entry element w page_num today = Inr e \<Longrightarrow> word e = w"
  by (auto simp: read_entry_def split: sum.splits)

lemma scrape_elements_distinct:
  "distinct (map entry_key entries) \<Longrightarrow> entry_key ` set entries \<subseteq> seen_words \<Longrightarrow>
   distinct (map entry_key (scrape_elements page_num today elements seen_words entries))"
proof (induction elements arbitrary: seen_words entries)
  case Nil
  then show ?case by simp
next
  case (Cons element elements)
  show ?case
  proof (cases "extract_text_safely element ''.word'' []")
    case (Inl x)
    with Cons show ?thesis by simp
  next
    case (Inr w)
    show ?thesis
    proof (cases "w = [] \<or> word_key w \<in> seen_words")
      case True
      with Inr Cons show ?thesis by auto
    next
      case False
      show ?thesis
      proof (cases "read_entry element w page_num today")
        case (Inl x)
        have "distinct (map entry_key
                (scrape_elements page_num today elements (insert (word_key w) seen_words) entries))"
          using Cons.prems by (intro Cons.IH) auto
        with Inr False Inl show ?thesis by simp
      next
        case r: (Inr e)
        then have k: "entry_key e = word_key w"
          by (simp add: entry_key_def read_entry_word)
        have "distinct (map entry_key
                (scrape_elements page_num today elements (insert (word_key w) seen_words)
                   (entries @ [e])))"
          using Cons.prems False k by (intro Cons.IH) auto
        with Inr False r show ?thesis by simp
      qed
    qed
  qed
qed

lemma scrape_page_distinct:
  "scrape_page b page_num today = Inr es \<Longrightarrow> distinct (map entry_key es)"
proof -
  assume a: "scrape_page b page_num today = Inr es"
  have "distinct (map entry_key (scrape_elements page_num today (definition_elements b) {} []))"
    by (rule scrape_elements_distinct) simp_all
  with a show ?thesis
    by (auto simp: scrape_page_def Let_def split: option.splits exn.splits)
qed

section \<open>First occurrences\<close>

lemma keep_first_snoc:
  "keep_first (es @ [e]) =
     (if entry_key e \<in> entry_key ` set es then keep_first es else keep_first es @ [e])"
proof (induction es rule: keep_first.induct)
  case 1
  show ?case by simp
next
  case (2 a es)
  let ?f = "filter (\<lambda>x. entry_key x \<noteq> entry_key a) es"
  show ?case
  proof (cases "entry_key e = entry_key a")
    case True
    then show ?thesis by simp
  next
    case False
    then have "entry_key e \<in> entry_key ` set ?f \<longleftrightarrow> entry_key e \<in> entry_key ` set es"
      by auto
    with False 2 show ?thesis by auto
  qed
qed

lemma keep_first_keys: "entry_key ` set (keep_first es) = entry_key ` set es"
proof (induction es rule: rev_induct)
  case (snoc e es)
  then show ?case by (auto simp: keep_first_snoc)
qed simp

lemma keep_first_distinct: "distinct (map entry_key (keep_first es))"
proof (induction es rule: rev_induct)
  case (snoc e es)
  then show ?case
    using keep_first_keys [of es] by (auto simp: keep_first_snoc)
qed simp

lemma keep_first_length: "length (keep_first es) = card (entry_key ` set es)"
proof -
  have "card (entry_key ` set es) = card (set (map entry_key (keep_first es)))"
    using keep_first_keys [of es] by simp
  also have "\<dots> = length (map entry_key (keep_first es))"
    by (rule distinct_card [OF keep_first_distinct])
  finally show ?thesis by simp
qed

lemma keep_first_prefix: "prefix (keep_first es) (keep_first (es @ fs))"
proof (induction fs rule: rev_induct)
  case (snoc f fs)
  have "prefix (keep_first (es @ fs)) (keep_first ((es @ fs) @ [f]))"
    by (simp only: keep_first_snoc) simp
  with snoc show ?case by (metis append_assoc prefix_order.trans)
qed simp

section \<open>The run keeps its invariants\<close>

lemma stmt_halted: "halted s \<Longrightarrow> stmt f s = s"
  by (simp add: stmt_def halted_def)

lemma filter_entries_halted: "halted s \<Longrightarrow> filter_entries es s = s"
  by (induction es) (simp_all add: stmt_halted)

lemma merge_page_halted: "halted s \<Longrightarrow> merge_page r s = s"
  by (cases s) (auto simp: merge_page_def stmt_halted filter_entries_halted halted_def
        split: sum.splits option.splits exn.splits)

lemma page_step:
  assumes "page_inv U A P s"
  shows "page_inv U A (P @ [e])
           (if word_key (word e) \<notin> global_seen_words s
            then stmt (\<lambda>s. s\<lparr>new_entries := new_entries s @ [e]\<rparr>)
                   (stmt (\<lambda>s. s\<lparr>global_seen_words := insert (word_key (word e)) (global_seen_words s)\<rparr>) s)
            else s)"
proof (cases "halted s")
  case True
  with assms show ?thesis by (simp add: stmt_halted page_inv_def)
next
  case False
  show ?thesis
  proof (cases "word_key (word e) \<in> global_seen_words s")
    case True
    with False assms have "entry_key e \<in> entry_key ` set (A @ P)"
      by (simp add: page_inv_def entry_key_def)
    then have "keep_first ((A @ P) @ [e]) = keep_first (A @ P)"
      "entry_key ` set ((A @ P) @ [e]) = entry_key ` set (A @ P)"
      by (simp_all only: keep_first_snoc if_True) auto
    with True False assms show ?thesis by (auto simp: page_inv_def)
  next
    case k: False
    with False assms have "entry_key e \<notin> entry_key ` set (A @ P)"
      by (simp add: page_inv_def entry_key_def)
    then have kf: "keep_first ((A @ P) @ [e]) = keep_first (A @ P) @ [e]"
      by (simp only: keep_first_snoc if_False)
    show ?thesis
      using k False assms kf
      by (auto simp: page_inv_def stmt_def halted_def entry_key_def
            split: option.splits nat.splits)
  qed
qed

lemma filter_entries_inv:
  "page_inv U A P s \<Longrightarrow> page_inv U A (P @ es) (filter_entries es s)"
proof (induction es arbitrary: P s)
  case Nil
  then show ?case by simp
next
  case (Cons e es)
  from page_step [OF Cons.prems, of e] Cons.IH [of "P @ [e]"]
  show ?case by simp
qed

lemma merge_page_inv:
  assumes "run_inv U A s"
  shows "run_inv U (A @ page_candidates r) (merge_page r s)
         \<or> (halted (merge_page r s) \<and> run_inv U A (merge_page r s))"
proof (cases "halted s")
  case True
  with assms show ?thesis by (simp add: merge_page_halted)
next
  case live: False
  with assms have seen: "global_seen_words s = entry_key ` set A"
    and quiet: "\<not> U \<longrightarrow> sigint s = None"
    by (auto simp: run_inv_def halted_def)
  show ?thesis
  proof (cases r)
    case (Inl x)
    with assms live show ?thesis
      by (cases x) (auto simp: merge_page_def run_inv_def halted_def)
  next
    case (Inr y)
    show ?thesis
    proof (cases y)
      case None
      with Inr assms live show ?thesis
        by (auto simp: merge_page_def run_inv_def halted_def stmt_def
              split: option.splits nat.splits)
    next
      case (Some es)
      define s1 where "s1 = stmt (\<lambda>s. s\<lparr>new_entries := []\<rparr>) s"
      define s2 where "s2 = filter_entries es s1"
      define s3 where "s3 = stmt (\<lambda>s. s\<lparr>chunk_entries := chunk_entries s @ new_entries s\<rparr>) s2"
      define s4 where "s4 = stmt (\<lambda>s. s\<lparr>all_entries := all_entries s @ new_entries s\<rparr>) s3"
      have m: "merge_page r s = s4"
        by (simp add: merge_page_def Inr Some s1_def s2_def s3_def s4_def)
      have "page_inv U A [] s1"
        using assms live seen quiet
        by (auto simp: s1_def page_inv_def run_inv_def halted_def stmt_def
              split: option.splits nat.splits)
      then have "page_inv U A ([] @ es) s2"
        unfolding s2_def by (rule filter_entries_inv)
      then have p2: "page_inv U A es s2" by simp
      then have p3: "page_inv U A es s3"
        by (auto simp: s3_def page_inv_def halted_def stmt_def
              split: option.splits nat.splits if_splits)
      show ?thesis
      proof (cases "halted s3")
        case True
        then have "s4 = s3" by (simp add: s4_def stmt_halted)
        with True p3 have "halted s4 \<and> run_inv U A s4"
          by (auto simp: page_inv_def run_inv_def halted_def)
        with m show ?thesis by simp
      next
        case False
        with p3 have "run_inv U (A @ es) s4"
          by (auto simp: s4_def page_inv_def run_inv_def halted_def stmt_def
                split: option.splits nat.splits if_splits)
        with m Inr Some show ?thesis by simp
      qed
    qed
  qed
qed

lemma fold_merge_halted:
  "halted s \<Longrightarrow> fold (\<lambda>page_num. merge_page (g page_num)) ps s = s"
  by (induction ps) (simp_all add: merge_page_halted)

lemma fold_merge_inv:
  "run_inv U A s \<Longrightarrow>
   \<exists>B. prefix B (concat (map (\<lambda>page_num. page_candidates (g page_num)) ps))
       \<and> run_inv U (A @ B) (fold (\<lambda>page_num. merge_page (g page_num)) ps s)
       \<and> (\<not> halted (fold (\<lambda>page_num. merge_page (g page_num)) ps s) \<longrightarrow>
            B = concat (map (\<lambda>page_num. page_candidates (g page_num)) ps))"
proof (induction ps arbitrary: A s)
  case Nil
  then show ?case by (intro exI [of _ "[]"]) simp
next
  case (Cons p ps)
  let ?s = "merge_page (g p) s"
  from merge_page_inv [OF Cons.prems, of "g p"]
  show ?case
  proof
    assume a: "run_inv U (A @ page_candidates (g p)) ?s"
    from Cons.IH [OF a] obtain B where
      B: "prefix B (concat (map (\<lambda>page_num. page_candidates (g page_num)) ps))"
         "run_inv U ((A @ page_candidates (g p)) @ B) (fold (\<lambda>page_num. merge_page (g page_num)) ps ?s)"
         "\<not> halted (fold (\<lambda>page_num. merge_page (g page_num)) ps ?s) \<longrightarrow>
            B = concat (map (\<lambda>page_num. page_candidates (g page_num)) ps)"
      by blast
    show ?thesis
      using B by (intro exI [of _ "page_candidates (g p) @ B"]) simp
  next
    assume a: "halted ?s \<and> run_inv U A ?s"
    then have "fold (\<lambda>page_num. merge_page (g page_num)) ps ?s = ?s"
      by (simp add: fold_merge_halted)
    with a show ?thesis
      by (intro exI [of _ "[]"]) simp
  qed
qed

lemma stmt_run_inv:
  assumes "run_inv U A s"
    and "\<And>t. all_entries (f t) = all_entries t"
    and "\<And>t. global_seen_words (f t) = global_seen_words t"
    and "\<And>t. sigint (f t) = sigint t"
  shows "run_inv U A (stmt f s)"
  using assms(1)
  by (auto simp: run_inv_def halted_def stmt_def assms(2-4) split: option.splits nat.splits)

lemma process_chunk_halted: "halted s \<Longrightarrow> process_chunk w out c s = s"
  by (simp add: process_chunk_def stmt_halted fold_merge_halted)

lemma process_chunk_inv:
  assumes "run_inv U A s"
  shows "\<exists>B. prefix B (chunk_candidates w c)
       \<and> run_inv U (A @ B) (process_chunk w out c s)
       \<and> (\<not> halted (process_chunk w out c s) \<longrightarrow> B = chunk_candidates w c)"
proof -
  define s1 where "s1 = stmt (\<lambda>s. s\<lparr>chunk_entries := []\<rparr>) s"
  define s2 where "s2 = fold (\<lambda>page_num. merge_page (future_result w page_num))
                          (as_completed w (chunk_pages c)) s1"
  define save :: "run_state \<Rightarrow> run_state" where "save = (\<lambda>s. if chunk_entries s \<noteq> []
               then s\<lparr>written := save_to_csv (chunk_entries s)
                                   (chunk_filename (splitext_root out) c) (written s)\<rparr>
               else s)"
  have pc: "process_chunk w out c s = stmt save s2"
    by (simp add: process_chunk_def s1_def s2_def save_def)
  have "run_inv U A s1"
    unfolding s1_def using assms by (rule stmt_run_inv) simp_all
  from fold_merge_inv [OF this, of "future_result w" "as_completed w (chunk_pages c)"]
  obtain B where B: "prefix B (chunk_candidates w c)" "run_inv U (A @ B) s2"
    "\<not> halted s2 \<longrightarrow> B = chunk_candidates w c"
    by (auto simp: s2_def chunk_candidates_def)
  have "run_inv U (A @ B) (stmt save s2)"
    using B(2) by (rule stmt_run_inv) (simp_all add: save_def)
  moreover have "\<not> halted (stmt save s2) \<longrightarrow> \<not> halted s2"
    by (auto simp: stmt_halted)
  ultimately show ?thesis
    using B pc by (intro exI [of _ B]) auto
qed

lemma run_chunks_halted: "halted s \<Longrightarrow> run_chunks w out cs s = s"
  by (induction cs) (simp_all add: run_chunks_def process_chunk_halted)

lemma run_chunks_inv:
  "run_inv U A s \<Longrightarrow>
   \<exists>B. prefix B (candidates w cs)
       \<and> run_inv U (A @ B) (run_chunks w out cs s)
       \<and> (\<not> halted (run_chunks w out cs s) \<longrightarrow> B = candidates w cs)"
proof (induction cs arbitrary: A s)
  case Nil
  then show ?case by (intro exI [of _ "[]"]) (simp add: run_chunks_def candidates_def)
next
  case (Cons c cs)
  let ?s = "process_chunk w out c s"
  from process_chunk_inv [OF Cons.prems, of w c out] obtain B1 where
    B1: "prefix B1 (chunk_candidates w c)" "run_inv U (A @ B1) ?s"
        "\<not> halted ?s \<longrightarrow> B1 = chunk_candidates w c"
    by blast
  have rc: "run_chunks w out (c # cs) s = run_chunks w out cs ?s"
    by (simp add: run_chunks_def)
  show ?case
  proof (cases "halted ?s")
    case True
    then have "run_chunks w out (c # cs) s = ?s"
      by (simp add: rc run_chunks_halted)
    with B1 True show ?thesis
      by (intro exI [of _ B1]) (auto simp: candidates_def prefix_def)
  next
    case False
    with B1 have b1: "B1 = chunk_candidates w c" by simp
    from Cons.IH [OF B1(2)] obtain B2 where
      B2: "prefix B2 (candidates w cs)" "run_inv U ((A @ B1) @ B2) (run_chunks w out cs ?s)"
          "\<not> halted (run_chunks w out cs ?s) \<longrightarrow> B2 = candidates w cs"
      by blast
    then show ?thesis
      using b1 rc by (intro exI [of _ "B1 @ B2"]) (auto simp: candidates_def)
  qed
qed

lemma initial_inv: "run_inv (i \<noteq> None) [] (initial_state i)"
  by (auto simp: run_inv_def initial_state_def halted_def)

section \<open>Properties of \<open>main\<close>\<close>

lemma main_cases:
  assumes "main a w = Inr s"
  obtains cs where "chunks_of (args_start a) (args_end a) (args_chunk_size a) = Inr cs"
    and "s = (run_chunks w (args_output a) cs (initial_state (interrupt w)))
              \<lparr>written := save_to_csv
                 (all_entries (run_chunks w (args_output a) cs (initial_state (interrupt w))))
                 (args_output a)
                 (written (run_chunks w (args_output a) cs (initial_state (interrupt w))))\<rparr>"
  using assms by (auto simp: main_def Let_def split: sum.splits if_splits)

lemma main_inv:
  assumes "main a w = Inr s"
  obtains cs A where "chunks_of (args_start a) (args_end a) (args_chunk_size a) = Inr cs"
    and "prefix A (candidates w cs)"
    and "run_inv (interrupt w \<noteq> None) A s"
    and "\<not> halted s \<longrightarrow> A = candidates w cs"
proof -
  from assms obtain cs where cs: "chunks_of (args_start a) (args_end a) (args_chunk_size a) = Inr cs"
    and s: "s = (run_chunks w (args_output a) cs (initial_state (interrupt w)))
              \<lparr>written := save_to_csv
                 (all_entries (run_chunks w (args_output a) cs (initial_state (interrupt w))))
                 (args_output a)
                 (written (run_chunks w (args_output a) cs (initial_state (interrupt w))))\<rparr>"
    by (rule main_cases)
  let ?r = "run_chunks w (args_output a) cs (initial_state (interrupt w))"
  from run_chunks_inv [OF initial_inv [of "interrupt w"], where w = w and cs = cs
                         and out = "args_output a"]
  obtain B where B: "prefix B (candidates w cs)" "run_inv (interrupt w \<noteq> None) B ?r"
    "\<not> halted ?r \<longrightarrow> B = candidates w cs"
    by auto
  have "run_inv (interrupt w \<noteq> None) B s"
    using B(2) by (subst s) (simp add: run_inv_def halted_def)
  moreover have "halted s = halted ?r"
    by (subst s) (simp add: halted_def)
  ultimately show ?thesis
    using cs B that by blast
qed

text \<open>
  Claim C1.  A run of \<open>main\<close> with a chunk size other than 0 and at least one worker
  comes to its end.  Whatever the pages bring, in whatever order the pages of a chunk
  complete and wherever the run is interrupted, the entries collected at the end of
  \<open>main\<close> have pairwise different normalized terms (the word in lower case, stripped).  They are the
  first occurrences of their terms in the candidates merged, which are the candidates of
  the run up to some point, and all of them when the run was not cut short.  The
  entries that \<open>scrape_page\<close> returns for one page have pairwise different normalized
  terms as well.  \<open>Lit\<close> and \<open>lit\<close> followed by a space have the same normalized term.
\<close>

theorem one_record_per_term:
  "(args_chunk_size a \<noteq> 0 \<and> 0 < args_workers a \<longrightarrow> (\<exists>t. main a w = Inr t))
   \<and> (main a w = Inr s \<longrightarrow>
        distinct (map (\<lambda>e. word_key (word e)) (all_entries s))
        \<and> (\<exists>cs A. chunks_of (args_start a) (args_end a) (args_chunk_size a) = Inr cs
              \<and> prefix A (candidates w cs)
              \<and> all_entries s = keep_first A
              \<and> (\<not> halted s \<longrightarrow> A = candidates w cs)))
   \<and> (scrape_page b page_num today = Inr es \<longrightarrow>
        distinct (map (\<lambda>e. word_key (word e)) es))
   \<and> word_key ''Lit'' = word_key ''lit ''"
proof (intro conjI impI)
  assume "args_chunk_size a \<noteq> 0 \<and> 0 < args_workers a"
  then show "\<exists>t. main a w = Inr t"
    by (simp add: main_def chunks_of_def chunk_starts_def Let_def)
next
  assume m: "main a w = Inr s"
  then obtain cs A where
    c: "chunks_of (args_start a) (args_end a) (args_chunk_size a) = Inr cs"
    "prefix A (candidates w cs)" "run_inv (interrupt w \<noteq> None) A s"
    "\<not> halted s \<longrightarrow> A = candidates w cs"
    by (rule main_inv)
  then have k: "all_entries s = keep_first A" by (simp add: run_inv_def)
  have "distinct (map entry_key (keep_first A))" by (rule keep_first_distinct)
  then show "distinct (map (\<lambda>e. word_key (word e)) (all_entries s))"
    by (simp add: k entry_key_def [abs_def])
  from c(1,2,4) k
  show "\<exists>cs A. chunks_of (args_start a) (args_end a) (args_chunk_size a) = Inr cs
              \<and> prefix A (candidates w cs)
              \<and> all_entries s = keep_first A
              \<and> (\<not> halted s \<longrightarrow> A = candidates w cs)"
    by blast
next
  assume "scrape_page b page_num today = Inr es"
  then have "distinct (map entry_key es)" by (rule scrape_page_distinct)
  then show "distinct (map (\<lambda>e. word_key (word e)) es)"
    by (simp add: entry_key_def [abs_def])
next
  show "word_key ''Lit'' = word_key ''lit ''" by code_simp
qed

text \<open>The theorem at the sample run, where \<open>lit\<close> of page 2 is met before \<open>Lit\<close> of page 1.\<close>

theorem one_record_per_term_witness:
  "main sample_args (sample_world None) = Inr (projr (main sample_args (sample_world None)))
   \<and> map word (all_entries (projr (main sample_args (sample_world None))))
       = [''lit '', ''sus'', ''yeet'', ''rizz'']
   \<and> distinct (map (\<lambda>e. word_key (word e))
                  (all_entries (projr (main sample_args (sample_world None)))))"
proof -
  have "\<not> isl (main sample_args (sample_world None))" by code_simp
  then have h: "main sample_args (sample_world None)
                  = Inr (projr (main sample_args (sample_world None)))"
    by simp
  have w: "map word (all_entries (projr (main sample_args (sample_world None))))
             = [''lit '', ''sus'', ''yeet'', ''rizz'']"
    by code_simp
  from one_record_per_term [where a = sample_args and w = "sample_world None"
         and s = "projr (main sample_args (sample_world None))"] h w
  show ?thesis by blast
qed

text \<open>
  In the sample run interrupted after three statements, the term \<open>lit\<close> has been added
  to the seen words and its entry has not reached the collected entries: the summary
  counts 0 entries and 1 unique word.
\<close>

theorem counters_differ_after_interrupt:
  "map_sum id (\<lambda>s. (total_entries s, total_unique_words s))
     (main sample_args (sample_world (Some 3))) = Inr (0, 1)"
  by code_simp

text \<open>
  Claim C10, amended.  At the end of a run the number of entries collected is at most
  the number of seen words, and the two counters of the summary are equal when the user
  does not interrupt the run, and whenever the \<open>try\<close> block was not cut short.
\<close>

theorem counters_agree:
  assumes "main a w = Inr s"
  shows "total_entries s \<le> total_unique_words s
         \<and> (interrupt w = None \<longrightarrow> total_entries s = total_unique_words s)
         \<and> (\<not> halted s \<longrightarrow> total_entries s = total_unique_words s)"
proof -
  from assms obtain A where
    inv: "run_inv (interrupt w \<noteq> None) A s"
    by (rule main_inv)
  then have l: "total_entries s = card (entry_key ` set A)"
    by (simp add: run_inv_def total_entries_def keep_first_length)
  from inv have "card (entry_key ` set A) \<le> card (global_seen_words s)"
    by (intro card_mono) (simp_all add: run_inv_def)
  moreover from inv have "interrupt w = None \<or> \<not> halted s \<longrightarrow>
      global_seen_words s = entry_key ` set A"
    by (auto simp: run_inv_def)
  ultimately show ?thesis
    using l by (auto simp: total_unique_words_def)
qed

text \<open>The theorem at the sample run without interruption: 4 entries and 4 words.\<close>

theorem counters_agree_witness:
  "main sample_args (sample_world None) = Inr (projr (main sample_args (sample_world None)))
   \<and> interrupt (sample_world None) = None
   \<and> total_entries (projr (main sample_args (sample_world None))) = 4
   \<and> total_unique_words (projr (main sample_args (sample_world None))) = 4"
proof -
  have "\<not> isl (main sample_args (sample_world None))" by code_simp
  then have h: "main sample_args (sample_world None)
                  = Inr (projr (main sample_args (sample_world None)))"
    by simp
  have i: "interrupt (sample_world None) = None" by (simp add: sample_world_def)
  have t: "total_entries (projr (main sample_args (sample_world None))) = 4" by code_simp
  from counters_agree [OF h] i t h show ?thesis by simp
qed

section \<open>The moment of the interruption\<close>

lemma interruptible_halted: "interruptible P \<Longrightarrow> halted s \<Longrightarrow> P s = s"
  by (simp add: interruptible_def)

lemma interruptible_quiet:
  "interruptible P \<Longrightarrow> sigint s = None \<Longrightarrow> sigint (P s) = None \<or> sigint (P s) = Some 0"
  by (simp add: interruptible_def)

lemma interruptible_moment:
  "interruptible P \<Longrightarrow> sigint s = None \<Longrightarrow> sigint (P s) = None \<Longrightarrow>
   \<exists>n. P (s\<lparr>sigint := Some n\<rparr>) = (P s)\<lparr>sigint := Some k\<rparr>"
  by (simp add: interruptible_def)

lemma interruptible_id: "interruptible (\<lambda>s. s)"
  unfolding interruptible_def
proof (intro conjI allI impI)
  fix s :: run_state and k
  show "\<exists>n. s\<lparr>sigint := Some n\<rparr> = s\<lparr>sigint := Some k\<rparr>" by (rule exI [of _ k]) (rule refl)
qed simp_all

lemma interruptible_comp:
  assumes P: "interruptible P" and Q: "interruptible Q"
  shows "interruptible (\<lambda>s. Q (P s))"
  unfolding interruptible_def
proof (intro conjI allI impI)
  fix s assume h: "halted s"
  have "P s = s" by (rule interruptible_halted [OF P h])
  moreover have "Q s = s" by (rule interruptible_halted [OF Q h])
  ultimately show "Q (P s) = s" by (simp only:)
next
  fix s :: run_state assume n: "sigint s = None"
  from interruptible_quiet [OF P n]
  show "sigint (Q (P s)) = None \<or> sigint (Q (P s)) = Some 0"
  proof
    assume "sigint (P s) = None"
    then show ?thesis by (rule interruptible_quiet [OF Q])
  next
    assume z: "sigint (P s) = Some 0"
    then have "halted (P s)" by (simp add: halted_def)
    then have "Q (P s) = P s" by (rule interruptible_halted [OF Q])
    with z show ?thesis by (simp only:) simp
  qed
next
  fix s :: run_state and k assume a: "sigint s = None \<and> sigint (Q (P s)) = None"
  then have n: "sigint s = None" and q: "sigint (Q (P s)) = None" by simp_all
  from interruptible_quiet [OF P n] have p: "sigint (P s) = None"
  proof
    assume z: "sigint (P s) = Some 0"
    then have "halted (P s)" by (simp add: halted_def)
    then have "Q (P s) = P s" by (rule interruptible_halted [OF Q])
    with q z show ?thesis by (simp only:)
  qed
  from interruptible_moment [OF Q p q, of k]
  obtain m where m: "Q ((P s)\<lparr>sigint := Some m\<rparr>) = (Q (P s))\<lparr>sigint := Some k\<rparr>" ..
  from interruptible_moment [OF P n p, of m]
  obtain i where i: "P (s\<lparr>sigint := Some i\<rparr>) = (P s)\<lparr>sigint := Some m\<rparr>" ..
  show "\<exists>n. Q (P (s\<lparr>sigint := Some n\<rparr>)) = (Q (P s))\<lparr>sigint := Some k\<rparr>"
    by (intro exI [of _ i]) (simp only: i m)
qed

lemma interruptible_stmt:
  assumes c: "\<And>(t::run_state) x. f (t\<lparr>sigint := x\<rparr>) = (f t)\<lparr>sigint := x\<rparr>"
  shows "interruptible (stmt f)"
proof -
  have keep: "sigint (f t) = sigint t" for t :: run_state
  proof -
    have "t\<lparr>sigint := sigint t\<rparr> = t" by (cases t) simp
    then have "f t = (f t)\<lparr>sigint := sigint t\<rparr>" using c [where t = t and x = "sigint t"] by simp
    then have "sigint (f t) = sigint ((f t)\<lparr>sigint := sigint t\<rparr>)" by simp
    then show ?thesis by simp
  qed
  show ?thesis
    unfolding interruptible_def
  proof (intro conjI allI impI)
    fix s assume "halted s"
    then show "stmt f s = s" by (simp add: stmt_def halted_def)
  next
    fix s :: run_state assume "sigint s = None"
    then show "sigint (stmt f s) = None \<or> sigint (stmt f s) = Some 0"
      by (simp add: stmt_def keep)
  next
    fix s :: run_state and k assume "sigint s = None \<and> sigint (stmt f s) = None"
    then have "stmt f (s\<lparr>sigint := Some (Suc k)\<rparr>) = (stmt f s)\<lparr>sigint := Some k\<rparr>"
      by (simp add: stmt_def c)
    then show "\<exists>n. stmt f (s\<lparr>sigint := Some n\<rparr>) = (stmt f s)\<lparr>sigint := Some k\<rparr>"
      by blast
  qed
qed

lemma interruptible_if:
  assumes c: "\<And>(t::run_state) x. c (t\<lparr>sigint := x\<rparr>) = c t"
    and P: "interruptible P" and Q: "interruptible Q"
  shows "interruptible (\<lambda>s. if c s then P s else Q s)"
  unfolding interruptible_def
proof (intro conjI allI impI)
  fix s assume "halted s"
  then show "(if c s then P s else Q s) = s"
    using interruptible_halted [OF P] interruptible_halted [OF Q] by simp
next
  fix s :: run_state assume "sigint s = None"
  then show "sigint (if c s then P s else Q s) = None \<or> sigint (if c s then P s else Q s) = Some 0"
    using interruptible_quiet [OF P, of s] interruptible_quiet [OF Q, of s] by simp
next
  fix s :: run_state and k
  assume a: "sigint s = None \<and> sigint (if c s then P s else Q s) = None"
  show "\<exists>n. (if c (s\<lparr>sigint := Some n\<rparr>) then P (s\<lparr>sigint := Some n\<rparr>)
             else Q (s\<lparr>sigint := Some n\<rparr>))
            = (if c s then P s else Q s)\<lparr>sigint := Some k\<rparr>"
  proof (cases "c s")
    case True
    with a interruptible_moment [OF P, of s k] show ?thesis by (simp add: c)
  next
    case False
    with a interruptible_moment [OF Q, of s k] show ?thesis by (simp add: c)
  qed
qed

lemma interruptible_filter_entries: "interruptible (filter_entries es)"
proof (induction es)
  case Nil
  have "filter_entries [] = (\<lambda>s. s)" by (rule ext) simp
  then show ?case by (simp only: interruptible_id)
next
  case (Cons e es)
  let ?add = "\<lambda>s. s\<lparr>global_seen_words := insert (word_key (word e)) (global_seen_words s)\<rparr>"
  let ?app = "\<lambda>s. s\<lparr>new_entries := new_entries s @ [e]\<rparr>"
  have 1: "interruptible (stmt ?add)" by (rule interruptible_stmt) simp
  have 2: "interruptible (stmt ?app)" by (rule interruptible_stmt) simp
  have 3: "interruptible (\<lambda>s. stmt ?app (stmt ?add s))"
    by (rule interruptible_comp [OF 1 2])
  have "interruptible (\<lambda>s. if word_key (word e) \<notin> global_seen_words s
                            then stmt ?app (stmt ?add s) else s)"
    by (rule interruptible_if [OF _ 3 interruptible_id]) simp
  then have "interruptible (\<lambda>s. filter_entries es
                (if word_key (word e) \<notin> global_seen_words s
                 then stmt ?app (stmt ?add s) else s))"
    using Cons by (rule interruptible_comp)
  moreover have "filter_entries (e # es) = (\<lambda>s. filter_entries es
                (if word_key (word e) \<notin> global_seen_words s
                 then stmt ?app (stmt ?add s) else s))"
    by (rule ext) simp
  ultimately show ?case by (simp only:)
qed

lemma interruptible_merge_page: "interruptible (merge_page r)"
proof (cases r)
  case (Inl x)
  show ?thesis
  proof (cases x)
    case (Exception m)
    with Inl have "merge_page r = (\<lambda>s. s)" by (intro ext) (simp add: merge_page_def)
    then show ?thesis by (simp only: interruptible_id)
  next
    case KeyboardInterrupt
    with Inl have "merge_page r = (\<lambda>s. s\<lparr>sigint := Some 0\<rparr>)"
      by (intro ext) (simp add: merge_page_def)
    moreover have "interruptible (\<lambda>s. s\<lparr>sigint := Some 0\<rparr>)"
      by (auto simp: interruptible_def halted_def)
    ultimately show ?thesis by (simp only:)
  qed
next
  case (Inr y)
  show ?thesis
  proof (cases y)
    case None
    with Inr have "merge_page r = stmt (\<lambda>s. s\<lparr>new_entries := []\<rparr>)"
      by (intro ext) (simp add: merge_page_def)
    moreover have "interruptible (stmt (\<lambda>s. s\<lparr>new_entries := []\<rparr>))"
      by (rule interruptible_stmt) simp
    ultimately show ?thesis by (simp only:)
  next
    case (Some es)
    have 1: "interruptible (stmt (\<lambda>s. s\<lparr>new_entries := []\<rparr>))"
      by (rule interruptible_stmt) simp
    have 2: "interruptible (\<lambda>s. filter_entries es (stmt (\<lambda>s. s\<lparr>new_entries := []\<rparr>) s))"
      by (rule interruptible_comp [OF 1 interruptible_filter_entries])
    have 3: "interruptible (stmt (\<lambda>s. s\<lparr>chunk_entries := chunk_entries s @ new_entries s\<rparr>))"
      by (rule interruptible_stmt) simp
    have 4: "interruptible (stmt (\<lambda>s. s\<lparr>all_entries := all_entries s @ new_entries s\<rparr>))"
      by (rule interruptible_stmt) simp
    have "interruptible (\<lambda>s. stmt (\<lambda>s. s\<lparr>all_entries := all_entries s @ new_entries s\<rparr>)
            (stmt (\<lambda>s. s\<lparr>chunk_entries := chunk_entries s @ new_entries s\<rparr>)
               (filter_entries es (stmt (\<lambda>s. s\<lparr>new_entries := []\<rparr>) s))))"
      by (rule interruptible_comp [OF interruptible_comp [OF 2 3] 4])
    moreover have "merge_page r = (\<lambda>s. stmt (\<lambda>s. s\<lparr>all_entries := all_entries s @ new_entries s\<rparr>)
            (stmt (\<lambda>s. s\<lparr>chunk_entries := chunk_entries s @ new_entries s\<rparr>)
               (filter_entries es (stmt (\<lambda>s. s\<lparr>new_entries := []\<rparr>) s))))"
      using Inr Some by (intro ext) (simp add: merge_page_def)
    ultimately show ?thesis by (simp only:)
  qed
qed

lemma interruptible_fold:
  "(\<And>x. interruptible (h x)) \<Longrightarrow> interruptible (fold h xs)"
proof (induction xs)
  case Nil
  have "fold h [] = (\<lambda>s. s)" by (rule ext) simp
  then show ?case by (simp only: interruptible_id)
next
  case (Cons x xs)
  have "interruptible (\<lambda>s. fold h xs (h x s))"
    by (rule interruptible_comp [OF Cons.prems Cons.IH [OF Cons.prems]])
  moreover have "fold h (x # xs) = (\<lambda>s. fold h xs (h x s))" by (rule ext) simp
  ultimately show ?case by (simp only:)
qed

lemma interruptible_process_chunk: "interruptible (process_chunk w out c)"
proof -
  let ?save = "\<lambda>s. if chunk_entries s \<noteq> []
               then s\<lparr>written := save_to_csv (chunk_entries s)
                                   (chunk_filename (splitext_root out) c) (written s)\<rparr>
               else s"
  let ?pages = "fold (\<lambda>page_num. merge_page (future_result w page_num))
                  (as_completed w (chunk_pages c))"
  have 1: "interruptible (stmt (\<lambda>s. s\<lparr>chunk_entries := []\<rparr>))"
    by (rule interruptible_stmt) simp
  have 2: "interruptible ?pages"
    by (rule interruptible_fold) (rule interruptible_merge_page)
  have 3: "interruptible (stmt ?save)"
    by (rule interruptible_stmt) simp
  have "interruptible (\<lambda>s. stmt ?save (?pages (stmt (\<lambda>s. s\<lparr>chunk_entries := []\<rparr>) s)))"
    by (rule interruptible_comp [OF interruptible_comp [OF 1 2] 3])
  moreover have "process_chunk w out c
                   = (\<lambda>s. stmt ?save (?pages (stmt (\<lambda>s. s\<lparr>chunk_entries := []\<rparr>) s)))"
    by (intro ext) (simp add: process_chunk_def)
  ultimately show ?thesis by (simp only:)
qed

lemma interruptible_run_chunks: "interruptible (run_chunks w out cs)"
proof -
  have "interruptible (fold (process_chunk w out) cs)"
    by (rule interruptible_fold) (rule interruptible_process_chunk)
  moreover have "run_chunks w out cs = fold (process_chunk w out) cs"
    by (intro ext) (simp add: run_chunks_def)
  ultimately show ?thesis by (simp only:)
qed

lemma interrupt_moment:
  assumes "\<not> halted (run_chunks w out cs (initial_state None))"
  shows "\<exists>n. run_chunks w out cs (initial_state (Some n))
               = (run_chunks w out cs (initial_state None))\<lparr>sigint := Some 0\<rparr>"
proof -
  have i: "sigint (initial_state None) = None" by (simp add: initial_state_def)
  from interruptible_quiet [OF interruptible_run_chunks i, of w out cs] assms
  have q: "sigint (run_chunks w out cs (initial_state None)) = None"
    by (simp add: halted_def)
  from interruptible_moment [OF interruptible_run_chunks i q, of 0] obtain n where
    "run_chunks w out cs ((initial_state None)\<lparr>sigint := Some n\<rparr>)
       = (run_chunks w out cs (initial_state None))\<lparr>sigint := Some 0\<rparr>" ..
  moreover have "(initial_state None)\<lparr>sigint := Some n\<rparr> = initial_state (Some n)"
    by (simp add: initial_state_def)
  ultimately show ?thesis by (intro exI [of _ n]) (simp only:)
qed

section \<open>Interruption between two chunks\<close>

lemma run_chunks_append:
  "run_chunks w out (cs @ ds) s = run_chunks w out ds (run_chunks w out cs s)"
  by (simp add: run_chunks_def)

text \<open>
  Claim C4.  Take the first \<open>i\<close> chunks of a run and suppose that, left alone, the run
  completes them.  The \<open>KeyboardInterrupt\<close> arrives when these chunks are complete if,
  under the interruption, their run ends in the state that it reaches without
  interruption, with the exception raised there; there is a moment of interruption for
  which this is so.  Whenever it is so, no later chunk is processed: the entries that
  \<open>main\<close> has collected at its end are the first occurrences among the candidates of
  the first \<open>i\<close> chunks, the files written are the chunk files of these chunks and
  then the output file, and the output file holds the lines of exactly these entries.
\<close>

theorem interrupt_keeps_completed_chunks:
  assumes "chunks_of (args_start a) (args_end a) (args_chunk_size a) = Inr cs"
    and "0 < args_workers a"
    and "\<not> halted (run_chunks w (args_output a) (take i cs) (initial_state None))"
  shows "(\<exists>n. run_chunks w (args_output a) (take i cs) (initial_state (Some n))
              = (run_chunks w (args_output a) (take i cs) (initial_state None))\<lparr>sigint := Some 0\<rparr>)
         \<and> (run_chunks w (args_output a) (take i cs) (initial_state (interrupt w))
              = (run_chunks w (args_output a) (take i cs) (initial_state None))\<lparr>sigint := Some 0\<rparr>
            \<longrightarrow>
            (\<exists>s. main a w = Inr s
               \<and> all_entries s = keep_first (candidates w (take i cs))
               \<and> written s = save_to_csv (keep_first (candidates w (take i cs))) (args_output a)
                     (written (run_chunks w (args_output a) (take i cs) (initial_state None)))
               \<and> (all_entries s \<noteq> [] \<longrightarrow>
                    last (written s) =
                      (args_output a,
                       \<lparr>header = fieldnames,
                        rows = map row_of (keep_first (candidates w (take i cs)))\<rparr>))))"
proof (intro conjI impI)
  show "\<exists>n. run_chunks w (args_output a) (take i cs) (initial_state (Some n))
              = (run_chunks w (args_output a) (take i cs) (initial_state None))\<lparr>sigint := Some 0\<rparr>"
    using assms(3) by (rule interrupt_moment)
next
  assume at_end: "run_chunks w (args_output a) (take i cs) (initial_state (interrupt w))
              = (run_chunks w (args_output a) (take i cs) (initial_state None))\<lparr>sigint := Some 0\<rparr>"
  let ?out = "args_output a"
  let ?u = "run_chunks w ?out (take i cs) (initial_state None)"
  let ?t = "?u\<lparr>sigint := Some 0\<rparr>"
  let ?K = "keep_first (candidates w (take i cs))"
  have "halted ?t" by (simp add: halted_def)
  then have rest: "run_chunks w ?out (drop i cs) ?t = ?t" by (rule run_chunks_halted)
  have "run_chunks w ?out cs (initial_state (interrupt w))
          = run_chunks w ?out (take i cs @ drop i cs) (initial_state (interrupt w))"
    by simp
  also have "\<dots> = run_chunks w ?out (drop i cs)
                     (run_chunks w ?out (take i cs) (initial_state (interrupt w)))"
    by (rule run_chunks_append)
  also have "\<dots> = ?t" by (simp only: at_end rest)
  finally have run: "run_chunks w ?out cs (initial_state (interrupt w)) = ?t" .
  from run_chunks_inv [OF initial_inv [of None], where w = w and cs = "take i cs" and out = ?out]
  obtain B where "run_inv (None \<noteq> (None::nat option)) B ?u" "\<not> halted ?u \<longrightarrow> B = candidates w (take i cs)"
    by auto
  with assms(3) have all: "all_entries ?u = ?K"
    by (simp add: run_inv_def)
  define s where "s = ?t\<lparr>written := save_to_csv (all_entries ?t) ?out (written ?t)\<rparr>"
  have m: "main a w = Inr s"
    using assms(1,2) run by (simp add: main_def s_def Let_def)
  have a: "all_entries s = ?K" using all by (simp add: s_def)
  have w: "written s = save_to_csv ?K ?out (written ?u)" using all by (simp add: s_def)
  have "all_entries s \<noteq> [] \<longrightarrow>
          last (written s) = (?out, \<lparr>header = fieldnames, rows = map row_of ?K\<rparr>)"
    by (simp add: w a save_to_csv_file)
  with m a w show "\<exists>s. main a w = Inr s
               \<and> all_entries s = keep_first (candidates w (take i cs))
               \<and> written s = save_to_csv (keep_first (candidates w (take i cs))) (args_output a)
                     (written (run_chunks w (args_output a) (take i cs) (initial_state None)))
               \<and> (all_entries s \<noteq> [] \<longrightarrow>
                    last (written s) =
                      (args_output a,
                       \<lparr>header = fieldnames,
                        rows = map row_of (keep_first (candidates w (take i cs)))\<rparr>))"
    by blast
qed

text \<open>
  The theorem at the sample run interrupted after 14 statements, which is when its
  first chunk is complete: \<open>rizz\<close> of the second chunk is not collected.
\<close>

theorem interrupt_keeps_completed_chunks_witness:
  "chunks_of (args_start sample_args) (args_end sample_args) (args_chunk_size sample_args)
     = Inr (projr (chunks_of 1 3 2))
   \<and> 0 < args_workers sample_args
   \<and> \<not> halted (run_chunks (sample_world (Some 14)) (args_output sample_args)
                  (take 1 (projr (chunks_of 1 3 2))) (initial_state None))
   \<and> run_chunks (sample_world (Some 14)) (args_output sample_args)
         (take 1 (projr (chunks_of 1 3 2))) (initial_state (interrupt (sample_world (Some 14))))
       = (run_chunks (sample_world (Some 14)) (args_output sample_args)
            (take 1 (projr (chunks_of 1 3 2))) (initial_state None))\<lparr>sigint := Some 0\<rparr>
   \<and> map_sum id (\<lambda>s. (map word (all_entries s), map fst (written s)))
        (main sample_args (sample_world (Some 14)))
       = Inr ([''lit '', ''sus'', ''yeet''], [''data/out_chunk0-2.csv'', ''data/out.csv''])"
proof -
  have 1: "chunks_of (args_start sample_args) (args_end sample_args) (args_chunk_size sample_args)
             = Inr (projr (chunks_of 1 3 2))"
    by code_simp
  have 2: "0 < args_workers sample_args" by code_simp
  have 3: "\<not> halted (run_chunks (sample_world (Some 14)) (args_output sample_args)
                  (take 1 (projr (chunks_of 1 3 2))) (initial_state None))"
    by code_simp
  have 4: "run_chunks (sample_world (Some 14)) (args_output sample_args)
         (take 1 (projr (chunks_of 1 3 2))) (initial_state (interrupt (sample_world (Some 14))))
       = (run_chunks (sample_world (Some 14)) (args_output sample_args)
            (take 1 (projr (chunks_of 1 3 2))) (initial_state None))\<lparr>sigint := Some 0\<rparr>"
    by code_simp
  have k: "keep_first (candidates (sample_world (Some 14)) (take 1 (projr (chunks_of 1 3 2))))
             = [sample_entry ''lit '' 2, sample_entry ''sus'' 2, sample_entry ''yeet'' 1]"
    by code_simp
  have f: "map fst (written (run_chunks (sample_world (Some 14)) (args_output sample_args)
            (take 1 (projr (chunks_of 1 3 2))) (initial_state None))) = [''data/out_chunk0-2.csv'']"
    by code_simp
  from interrupt_keeps_completed_chunks [OF 1 2 3, THEN conjunct2, THEN mp, OF 4] obtain s where
    s: "main sample_args (sample_world (Some 14)) = Inr s"
       "all_entries s = keep_first (candidates (sample_world (Some 14)) (take 1 (projr (chunks_of 1 3 2))))"
       "written s = save_to_csv (keep_first (candidates (sample_world (Some 14)) (take 1 (projr (chunks_of 1 3 2)))))
           (args_output sample_args)
           (written (run_chunks (sample_world (Some 14)) (args_output sample_args)
            (take 1 (projr (chunks_of 1 3 2))) (initial_state None)))"
    by blast
  have e: "all_entries s
             = [sample_entry ''lit '' 2, sample_entry ''sus'' 2, sample_entry ''yeet'' 1]"
    using s(2) k by (simp only:)
  have "written s = save_to_csv
           [sample_entry ''lit '' 2, sample_entry ''sus'' 2, sample_entry ''yeet'' 1]
           (args_output sample_args)
           (written (run_chunks (sample_world (Some 14)) (args_output sample_args)
            (take 1 (projr (chunks_of 1 3 2))) (initial_state None)))"
    using s(3) k by (simp only:)
  then have "map fst (written s)
      = map fst (written (run_chunks (sample_world (Some 14)) (args_output sample_args)
            (take 1 (projr (chunks_of 1 3 2))) (initial_state None))) @ [args_output sample_args]"
    by (simp add: save_to_csv_file)
  then have "map fst (written s) = [''data/out_chunk0-2.csv''] @ [args_output sample_args]"
    by (simp only: f)
  then have g: "map fst (written s) = [''data/out_chunk0-2.csv'', ''data/out.csv'']"
    by (simp add: sample_args_def)
  have "map word (all_entries s) = [''lit '', ''sus'', ''yeet'']"
    by (simp add: e sample_entry_def)
  with g have "map_sum id (\<lambda>s. (map word (all_entries s), map fst (written s)))
        (main sample_args (sample_world (Some 14)))
       = Inr ([''lit '', ''sus'', ''yeet''], [''data/out_chunk0-2.csv'', ''data/out.csv''])"
    by (simp add: s(1))
  with 1 2 3 4 show ?thesis by blast
qed

section \<open>The files written\<close>

lemma written_stmt:
  "(\<And>t. written (f t) = written t) \<Longrightarrow> written (stmt f s) = written s"
  by (simp add: stmt_def split: option.splits nat.splits)

lemma written_filter_entries: "written (filter_entries es s) = written s"
  by (induction es arbitrary: s) (simp_all add: written_stmt)

lemma written_merge_page: "written (merge_page r s) = written s"
  by (simp add: merge_page_def written_stmt written_filter_entries
        split: sum.splits option.splits exn.splits)

lemma written_fold_merge:
  "written (fold (\<lambda>page_num. merge_page (g page_num)) ps s) = written s"
  by (induction ps arbitrary: s) (simp_all add: written_merge_page)

text \<open>
  A chunk writes at most one file, after its pages have been merged: the file of the
  entries the chunk has brought, under the name of the chunk.
\<close>

lemma stmt_choice: "stmt f s = s \<or> (\<exists>n. stmt f s = f (s\<lparr>sigint := n\<rparr>))"
proof (cases "sigint s")
  case None
  then have e: "s\<lparr>sigint := None\<rparr> = s" by (cases s) simp
  have "stmt f s = f s" using None by (simp add: stmt_def)
  then have "stmt f s = f (s\<lparr>sigint := None\<rparr>)" by (simp only: e)
  then show ?thesis by blast
next
  case (Some k)
  then show ?thesis by (cases k) (auto simp: stmt_def)
qed

lemma written_process_chunk:
  "written (process_chunk w out c s) = written s
   \<or> (\<exists>es. es \<noteq> [] \<and> written (process_chunk w out c s) =
         written s @ [(chunk_filename (splitext_root out) c,
                       \<lparr>header = fieldnames, rows = map row_of es\<rparr>)])"
proof -
  define s2 where "s2 = fold (\<lambda>page_num. merge_page (future_result w page_num))
                          (as_completed w (chunk_pages c))
                          (stmt (\<lambda>s. s\<lparr>chunk_entries := []\<rparr>) s)"
  define save :: "run_state \<Rightarrow> run_state" where "save = (\<lambda>s. if chunk_entries s \<noteq> []
               then s\<lparr>written := save_to_csv (chunk_entries s)
                                   (chunk_filename (splitext_root out) c) (written s)\<rparr>
               else s)"
  have w2: "written s2 = written s"
    by (simp add: s2_def written_fold_merge written_stmt)
  have pc: "process_chunk w out c s = stmt save s2"
    by (simp add: process_chunk_def s2_def save_def)
  from stmt_choice [of save s2] show ?thesis
  proof
    assume "stmt save s2 = s2"
    then show ?thesis by (simp add: pc w2)
  next
    assume "\<exists>n. stmt save s2 = save (s2\<lparr>sigint := n\<rparr>)"
    then obtain n where "stmt save s2 = save (s2\<lparr>sigint := n\<rparr>)" by blast
    then show ?thesis
      by (cases "chunk_entries s2 = []") (auto simp: pc w2 save_def save_to_csv_file)
  qed
qed

lemma tables_run_chunks:
  assumes "\<forall>(name, f) \<in> set (written s). header f = fieldnames \<and> (\<exists>es. rows f = map row_of es)"
  shows "\<forall>(name, f) \<in> set (written (run_chunks w out cs s)).
           header f = fieldnames \<and> (\<exists>es. rows f = map row_of es)"
  using assms
proof (induction cs arbitrary: s)
  case Nil
  then show ?case by (simp add: run_chunks_def)
next
  case (Cons c cs)
  have "\<forall>(name, f) \<in> set (written (process_chunk w out c s)).
           header f = fieldnames \<and> (\<exists>es. rows f = map row_of es)"
  proof -
    from written_process_chunk [of w out c s] show ?thesis
    proof (elim disjE exE conjE)
      assume "written (process_chunk w out c s) = written s"
      with Cons.prems show ?thesis by simp
    next
      fix es
      assume "written (process_chunk w out c s) =
         written s @ [(chunk_filename (splitext_root out) c,
                       \<lparr>header = fieldnames, rows = map row_of es\<rparr>)]"
      moreover have "\<exists>es'. map row_of es = map row_of es'" by blast
      ultimately show ?thesis using Cons.prems by auto
    qed
  qed
  from Cons.IH [OF this] show ?case by (simp add: run_chunks_def)
qed

text \<open>
  Claim C9.  The dictionary of an entry has exactly the nine fields \<open>word\<close>,
  \<open>definition\<close>, \<open>example\<close>, \<open>contributor\<close>, \<open>date\<close>, \<open>upvotes\<close>, \<open>downvotes\<close>, \<open>page\<close>
  and \<open>scraped_date\<close>, which are the field names of the writer in their order, and the
  writer turns it into the line of its nine values in this order.  Every file that a
  run of \<open>main\<close> has written, for a chunk or at the end, comes from this writer: its
  header is the list of the field names and its rows are the lines of entries.
\<close>

theorem artifacts_share_columns:
  "map fst (entry_dict e) = fieldnames
   \<and> fieldnames = [''word'', ''definition'', ''example'', ''contributor'', ''date'',
                   ''upvotes'', ''downvotes'', ''page'', ''scraped_date'']
   \<and> dict_to_list fieldnames (entry_dict e) =
         Inr [Str (word e), Str (definition_text e), Str (example e), Str (contributor e),
              Str (date e), Num (upvotes e), Num (downvotes e), Num (page e),
              Str (scraped_date e)]
   \<and> (main a w = Inr s \<longrightarrow>
        (\<forall>(name, f) \<in> set (written s).
            header f = fieldnames \<and> (\<exists>es. rows f = map row_of es \<and> (\<forall>r \<in> set (rows f). length r = 9))))"
proof (intro conjI impI)
  show "map fst (entry_dict e) = fieldnames"
    by (simp add: entry_dict_def fieldnames_def)
  show "fieldnames = [''word'', ''definition'', ''example'', ''contributor'', ''date'',
                   ''upvotes'', ''downvotes'', ''page'', ''scraped_date'']"
    by (simp add: fieldnames_def)
  show "dict_to_list fieldnames (entry_dict e) =
         Inr [Str (word e), Str (definition_text e), Str (example e), Str (contributor e),
              Str (date e), Num (upvotes e), Num (downvotes e), Num (page e),
              Str (scraped_date e)]"
    by (simp add: dict_to_list_entry row_of_def)
next
  assume "main a w = Inr s"
  then obtain cs where
    s: "s = (run_chunks w (args_output a) cs (initial_state (interrupt w)))
              \<lparr>written := save_to_csv
                 (all_entries (run_chunks w (args_output a) cs (initial_state (interrupt w))))
                 (args_output a)
                 (written (run_chunks w (args_output a) cs (initial_state (interrupt w))))\<rparr>"
    by (rule main_cases)
  let ?r = "run_chunks w (args_output a) cs (initial_state (interrupt w))"
  have "\<forall>(name, f) \<in> set (written (initial_state (interrupt w))).
          header f = fieldnames \<and> (\<exists>es. rows f = map row_of es)"
    by (simp add: initial_state_def)
  then have "\<forall>(name, f) \<in> set (written ?r). header f = fieldnames \<and> (\<exists>es. rows f = map row_of es)"
    by (rule tables_run_chunks)
  then have "\<forall>(name, f) \<in> set (written s). header f = fieldnames \<and> (\<exists>es. rows f = map row_of es)"
    by (subst s) (auto simp: save_to_csv_file)
  then show "\<forall>(name, f) \<in> set (written s).
            header f = fieldnames \<and> (\<exists>es. rows f = map row_of es \<and> (\<forall>r \<in> set (rows f). length r = 9))"
    by (fastforce simp: row_of_def)
qed

text \<open>The theorem at the sample run, which writes two chunk files and the output file.\<close>

theorem artifacts_share_columns_witness:
  "main sample_args (sample_world None) = Inr (projr (main sample_args (sample_world None)))
   \<and> map fst (written (projr (main sample_args (sample_world None))))
       = [''data/out_chunk0-2.csv'', ''data/out_chunk2-3.csv'', ''data/out.csv'']
   \<and> list_all (\<lambda>(name, f). header f = fieldnames \<and> list_all (\<lambda>r. length r = 9) (rows f))
        (written (projr (main sample_args (sample_world None))))"
proof -
  have "\<not> isl (main sample_args (sample_world None))" by code_simp
  then have h: "main sample_args (sample_world None)
                  = Inr (projr (main sample_args (sample_world None)))"
    by simp
  have n: "map fst (written (projr (main sample_args (sample_world None))))
       = [''data/out_chunk0-2.csv'', ''data/out_chunk2-3.csv'', ''data/out.csv'']"
    by code_simp
  from artifacts_share_columns [of _ sample_args "sample_world None"
         "projr (main sample_args (sample_world None))"] h
  have "\<forall>(name, f) \<in> set (written (projr (main sample_args (sample_world None)))).
         header f = fieldnames \<and> (\<exists>es. rows f = map row_of es \<and> (\<forall>r \<in> set (rows f). length r = 9))"
    by blast
  then have "list_all (\<lambda>(name, f). header f = fieldnames \<and> list_all (\<lambda>r. length r = 9) (rows f))
        (written (projr (main sample_args (sample_world None))))"
    by (auto simp: list_all_iff)
  with h n show ?thesis by blast
qed

section \<open>The names of the chunk files\<close>

lemma code_digit: "d < 10 \<Longrightarrow> code (char_of (48 + d)) = 48 + d"
  by (simp add: code_def)

lemma str_nat_small: "n < 10 \<Longrightarrow> str_nat n = [char_of (48 + n)]"
  by (subst str_nat.simps) simp

lemma str_nat_large:
  "\<not> n < 10 \<Longrightarrow> str_nat n = str_nat (n div 10) @ [char_of (48 + n mod 10)]"
  by (subst str_nat.simps) simp

lemma str_nat_digits: "list_all is_digit (str_nat n)"
proof (induction n rule: str_nat.induct)
  case (1 n)
  show ?case
  proof (cases "n < 10")
    case True
    then show ?thesis by (simp add: str_nat_small is_digit_def code_digit)
  next
    case False
    have "is_digit (char_of (48 + n mod 10))"
      by (simp add: is_digit_def code_digit)
    with False 1 show ?thesis by (simp add: str_nat_large)
  qed
qed

lemma digits_value_snoc: "digits_value (ds @ [c]) = 10 * digits_value ds + digit_value c"
  by (simp add: digits_value_def)

lemma str_nat_value: "digits_value (str_nat n) = n"
proof (induction n rule: str_nat.induct)
  case (1 n)
  show ?case
  proof (cases "n < 10")
    case True
    then show ?thesis
      by (simp add: str_nat_small digits_value_def digit_value_def code_digit)
  next
    case False
    have "digit_value (char_of (48 + n mod 10)) = n mod 10"
      by (simp add: digit_value_def code_digit)
    with False 1 show ?thesis by (simp add: str_nat_large digits_value_snoc)
  qed
qed

lemma str_nat_inj: "str_nat m = str_nat n \<Longrightarrow> m = n"
  by (metis str_nat_value)

lemma digits_then_dash:
  assumes "list_all is_digit xs" and "list_all is_digit ys"
    and "xs @ CHR ''-'' # r = ys @ CHR ''-'' # r'"
  shows "xs = ys"
proof -
  have d: "\<not> is_digit CHR ''-''" by (simp add: is_digit_def code_def)
  have "takeWhile is_digit (xs @ CHR ''-'' # r) = xs"
    using assms(1) d by (simp add: takeWhile_tail list_all_iff)
  moreover have "takeWhile is_digit (ys @ CHR ''-'' # r') = ys"
    using assms(2) d by (simp add: takeWhile_tail list_all_iff)
  ultimately show ?thesis using assms(3) by simp
qed

lemma chunk_filename_inj:
  assumes "chunk_filename base c = chunk_filename base d"
  shows "chunk_start c = chunk_start d"
proof -
  from assms have "str_nat (chunk_start c) @ CHR ''-'' # (str_nat (chunk_end c) @ ''.csv'')
                 = str_nat (chunk_start d) @ CHR ''-'' # (str_nat (chunk_end d) @ ''.csv'')"
    by (simp add: chunk_filename_def)
  then have "str_nat (chunk_start c) = str_nat (chunk_start d)"
    by (rule digits_then_dash [OF str_nat_digits str_nat_digits])
  then show ?thesis by (rule str_nat_inj)
qed

text \<open>
  In the sample run the chunk of the pages 1 and 2 is saved as \<open>data/out_chunk0-2.csv\<close>
  and the chunk of page 3 as \<open>data/out_chunk2-3.csv\<close>: the numbers in the name are
  positions in the list of pages, not the first and the last page of the chunk.
\<close>

theorem chunk_names_are_positions:
  "map chunk_pages (projr (chunks_of 1 3 2)) = [[1, 2], [3]]
   \<and> map fst (written (projr (main sample_args (sample_world None))))
       = [''data/out_chunk0-2.csv'', ''data/out_chunk2-3.csv'', ''data/out.csv'']"
  by code_simp

text \<open>
  Claim C5, amended.  For a positive chunk size, the file of a chunk has the name
  \<open>{base}_chunk{i}-{j}.csv\<close>, where \<open>i\<close> is the distance of the chunk's first page from
  the start page and \<open>j\<close> is one more than the distance of its last page from the start
  page; \<open>base\<close> is the output path without its extension.  The names of the chunks of a
  run are pairwise different.  A chunk writes no other file, and it writes its file
  after its pages have been merged, when they have brought an entry.
\<close>

theorem chunk_file_names:
  assumes "0 < chunk_size" and "chunks_of start end chunk_size = Inr cs"
  shows "(\<forall>c \<in> set cs.
            chunk_filename base c =
              base @ ''_chunk'' @ str_nat (nat (hd (chunk_pages c) - start)) @ ''-''
                @ str_nat (nat (last (chunk_pages c) - start) + 1) @ ''.csv'')
         \<and> distinct (map (chunk_filename base) cs)
         \<and> (\<forall>c \<in> set cs. \<forall>w out s.
              written (process_chunk w out c s) = written s
              \<or> (\<exists>es. es \<noteq> [] \<and> written (process_chunk w out c s) =
                    written s @ [(chunk_filename (splitext_root out) c,
                                  \<lparr>header = fieldnames, rows = map row_of es\<rparr>)]))"
proof (intro conjI ballI allI)
  let ?css = "range_from 0 (length [start..end]) (nat chunk_size)"
  have cs: "cs = map (mk_chunk [start..end] chunk_size) ?css"
    using assms by (simp add: chunks_of_eq)
  {
    fix c assume "c \<in> set cs"
    then obtain i where i: "i \<in> set ?css" and c: "c = mk_chunk [start..end] chunk_size i"
      by (auto simp: cs)
    note sh = chunk_shape [OF assms(1) i, folded c]
    have le: "start + int (chunk_start c) \<le> start + int (chunk_end c) - 1"
      using sh(3) by simp
    have "hd (chunk_pages c) = start + int (chunk_start c)"
      using le by (subst sh(4)) (simp add: upto_rec1)
    moreover have "last (chunk_pages c) = start + int (chunk_end c) - 1"
      using le by (subst sh(4)) (simp add: upto_rec2)
    ultimately have "nat (hd (chunk_pages c) - start) = chunk_start c"
      and "nat (last (chunk_pages c) - start) + 1 = chunk_end c"
      using sh(3) by simp_all
    then show "chunk_filename base c =
              base @ ''_chunk'' @ str_nat (nat (hd (chunk_pages c) - start)) @ ''-''
                @ str_nat (nat (last (chunk_pages c) - start) + 1) @ ''.csv''"
      by (simp add: chunk_filename_def)
  }
  have "map chunk_start cs = ?css"
    by (simp add: cs comp_def mk_chunk_def Let_def)
  then have "distinct (map chunk_start cs)"
    using range_from_sorted [of 0 "length [start..end]" "nat chunk_size"]
    by (simp add: strict_sorted_iff)
  then show "distinct (map (chunk_filename base) cs)"
    by (auto simp: distinct_map inj_on_def dest: chunk_filename_inj)
next
  fix c w out s
  show "written (process_chunk w out c s) = written s
          \<or> (\<exists>es. es \<noteq> [] \<and> written (process_chunk w out c s) =
                written s @ [(chunk_filename (splitext_root out) c,
                              \<lparr>header = fieldnames, rows = map row_of es\<rparr>)])"
    by (rule written_process_chunk)
qed

text \<open>The theorem at the pages 1 to 120 in chunks of 50.\<close>

theorem chunk_file_names_witness:
  "(0::int) < 50
   \<and> chunks_of 1 120 50 = Inr (projr (chunks_of 1 120 50))
   \<and> map (chunk_filename ''data/out'') (projr (chunks_of 1 120 50))
       = [''data/out_chunk0-50.csv'', ''data/out_chunk50-100.csv'', ''data/out_chunk100-120.csv'']
   \<and> distinct (map (chunk_filename ''data/out'') (projr (chunks_of 1 120 50)))"
proof -
  have p: "(0::int) < 50" by simp
  have "\<not> isl (chunks_of 1 120 50)" by code_simp
  then have h: "chunks_of 1 120 50 = Inr (projr (chunks_of 1 120 50))" by simp
  have n: "map (chunk_filename ''data/out'') (projr (chunks_of 1 120 50))
       = [''data/out_chunk0-50.csv'', ''data/out_chunk50-100.csv'', ''data/out_chunk100-120.csv'']"
    by code_simp
  from chunk_file_names [OF p h, of "''data/out''"] p h n show ?thesis by blast
qed

end
